theory Spec2Isabelle
  imports Main
begin

section \<open>Values, closures and the store\<close>

text \<open>
  The embedding follows \<^verbatim>\<open>src/Promise.js\<close>. JavaScript objects have identity, so a
  promise is an index into a store of promise records and a foreign object is an index into
  a table of objects; \<^verbatim>\<open>===\<close> on two references is equality of the indices.
\<close>

datatype Status = PENDING | FULLFILLED | REJECTED

datatype val =
    Undefined
  | Null
  | Bool bool
  | Num int
  | Str string
  | Arr "val list"
  | TypeError string
  | PromiseRef nat
  | ObjRef nat

text \<open>A call either returns a value or throws one.\<close>

datatype outcome = Return val | Throw val

text \<open>
  Code of the environment (a resolver passed to the constructor, the \<^verbatim>\<open>then\<close> method of a
  foreign object) is a sequence of synchronous steps on the two capabilities it is given:
  call the first, call the second, or throw. A throw ends the sequence, and so does an
  exception coming out of a capability.
\<close>

datatype step = CallResolve val | CallReject val | ThrowV val

text \<open>
  What reading the \<^verbatim>\<open>then\<close> member of a foreign object gives: the getter throws, the
  member is not a function (\<open>ThenValue Undefined\<close> when it is absent), or it is a function.
\<close>

datatype then_member = ThenThrows val | ThenValue val | ThenFn "step list"

text \<open>
  Function values. \<open>NonFn v\<close> is a value that is not a function, \<open>UserFn f\<close> a handler of
  the caller: it returns or throws, depending on its argument, and does not call the
  library itself. The others are the closures the source creates, with the variables they
  close over:
  \<^item> \<open>ResolveFn p\<close>, \<open>RejectFn p\<close>: \<^verbatim>\<open>function (data) { resolve(promise, data); }\<close> and its
    twin (constructor, \<^verbatim>\<open>Promise.defer\<close>, and the pair \<^verbatim>\<open>makeCallback\<close> attaches to a returned
    promise);
  \<^item> \<open>ResolveRaceCallback p c\<close>, \<open>RejectRaceCallback p c\<close>: the two callbacks of \<^verbatim>\<open>Promise.race\<close>,
    \<open>c\<close> the cell of their shared variable \<^verbatim>\<open>settled\<close>;
  \<^item> \<open>AllCallback a index action\<close>: the result of \<^verbatim>\<open>makeAllCallback\<close>, \<open>a\<close> the variables of
    that call of \<^verbatim>\<open>Promise.all\<close>;
  \<^item> \<open>ResolvePromise p x c\<close>, \<open>RejectPromise p c\<close>: the two functions \<^verbatim>\<open>resolveThenable\<close>
    passes to \<^verbatim>\<open>then.call\<close>, \<open>c\<close> the cell of their shared variable \<^verbatim>\<open>invoked\<close>;
  \<^item> \<open>PromiseCallback p callback action\<close>: the function \<^verbatim>\<open>promiseCallback\<close> that
    \<^verbatim>\<open>makeCallback(promise, callback, action)\<close> returns.
\<close>

datatype func =
    NonFn val
  | UserFn "val \<Rightarrow> outcome"
  | ResolveFn nat
  | RejectFn nat
  | ResolveRaceCallback nat nat
  | RejectRaceCallback nat nat
  | AllCallback nat nat string
  | ResolvePromise nat val nat
  | RejectPromise nat nat
  | PromiseCallback nat func string

record promise =
  pstatus :: Status
  pvalue :: val
  doneCallbacks :: "func list"
  failCallbacks :: "func list"

text \<open>The variables one call of \<^verbatim>\<open>Promise.all\<close> shares with its callbacks.\<close>

record all_vars =
  all_promise :: nat
  all_length :: nat
  all_result :: "val list"
  all_count :: nat

text \<open>
  The whole state: the promises, the foreign objects, the boolean closure variables
  (\<^verbatim>\<open>settled\<close>, \<^verbatim>\<open>invoked\<close>), the variables of the calls of \<^verbatim>\<open>Promise.all\<close>, and the
  functions handed to \<^verbatim>\<open>setTimeout\<close> that have not run yet, oldest first. A scheduled
  function is the array \<^verbatim>\<open>callbacks\<close> and the \<^verbatim>\<open>value\<close> it closes over. \<open>calls\<close> is a trace,
  not program state: every invocation of a caller's handler is appended to it.
\<close>

record state =
  promises :: "promise list"
  objs :: "then_member list"
  cells :: "bool list"
  alls :: "all_vars list"
  tasks :: "(func list \<times> val) list"
  calls :: "((val \<Rightarrow> outcome) \<times> val) list"

section \<open>The state machine\<close>

text \<open>The fields a constructor call initialises (lines 52 to 71).\<close>

definition new_pending :: "state \<Rightarrow> nat \<times> state" where
  "new_pending s =
     (length (promises s),
      s\<lparr>promises := promises s @
        [\<lparr>pstatus = PENDING, pvalue = Undefined, doneCallbacks = [], failCallbacks = []\<rparr>]\<rparr>)"

definition run :: "nat \<Rightarrow> state \<Rightarrow> state" where
  "run p s =
     (let promise = promises s ! p in
      if pstatus promise = PENDING then s
      else
        let v = pvalue promise;
            callbacks = (if pstatus promise = FULLFILLED then doneCallbacks promise
                         else failCallbacks promise)
        in s\<lparr>tasks := tasks s @ [(callbacks, v)],
              promises := (promises s)[p := promise\<lparr>doneCallbacks := [], failCallbacks := []\<rparr>]\<rparr>)"

definition resolve :: "nat \<Rightarrow> val \<Rightarrow> state \<Rightarrow> state" where
  "resolve p data s =
     (if pstatus (promises s ! p) \<noteq> PENDING then s
      else run p (s\<lparr>promises :=
             (promises s)[p := (promises s ! p)\<lparr>pstatus := FULLFILLED, pvalue := data\<rparr>]\<rparr>))"

definition reject :: "nat \<Rightarrow> val \<Rightarrow> state \<Rightarrow> state" where
  "reject p reason s =
     (if pstatus (promises s ! p) \<noteq> PENDING then s
      else run p (s\<lparr>promises :=
             (promises s)[p := (promises s ! p)\<lparr>pstatus := REJECTED, pvalue := reason\<rparr>]\<rparr>))"

section \<open>The constructor\<close>

datatype resolver = NotFunction val | Resolver "step list"

text \<open>
  The constructor is always called with \<^verbatim>\<open>new\<close> here, so the test of line 38 passes. The
  resolver runs with the two closures of lines 75 to 80; the call is not inside a
  \<^verbatim>\<open>try\<close>, so what it throws leaves the constructor.
\<close>

fun run_resolver :: "step list \<Rightarrow> nat \<Rightarrow> state \<Rightarrow> outcome \<times> state" where
  "run_resolver [] p s = (Return Undefined, s)"
| "run_resolver (CallResolve v # steps) p s = run_resolver steps p (resolve p v s)"
| "run_resolver (CallReject v # steps) p s = run_resolver steps p (reject p v s)"
| "run_resolver (ThrowV e # steps) p s = (Throw e, s)"

definition Promise_new :: "resolver \<Rightarrow> state \<Rightarrow> outcome \<times> state" where
  "Promise_new r s =
     (case r of
        NotFunction v \<Rightarrow>
          (Throw (TypeError ''TypeError: Promise resolver undefined is not a function''), s)
      | Resolver steps \<Rightarrow>
          (let (promise, s1) = new_pending s in
           case run_resolver steps promise s1 of
             (Throw e, s2) \<Rightarrow> (Throw e, s2)
           | (Return _, s2) \<Rightarrow> (Return (PromiseRef promise), s2)))"

text \<open>\<^verbatim>\<open>function empty() {}\<close>\<close>

definition empty :: resolver where
  "empty = Resolver []"

section \<open>then and its aliases\<close>

definition makeCallback :: "nat \<Rightarrow> func \<Rightarrow> string \<Rightarrow> func" where
  "makeCallback promise callback action = PromiseCallback promise callback action"

text \<open>
  \<^verbatim>\<open>new Promise(empty)\<close> is \<open>new_pending\<close>: the resolver does nothing. The two pushes append
  to the arrays of \<^verbatim>\<open>this\<close>.
\<close>

definition Promise_then :: "nat \<Rightarrow> func \<Rightarrow> func \<Rightarrow> state \<Rightarrow> nat \<times> state" where
  "Promise_then this onResolve onReject s =
     (let (promise, s1) = new_pending s;
          t = promises s1 ! this;
          s2 = s1\<lparr>promises := (promises s1)[this :=
                 t\<lparr>doneCallbacks := doneCallbacks t @ [makeCallback promise onResolve ''resolve'']\<rparr>]\<rparr>;
          t' = promises s2 ! this;
          s3 = s2\<lparr>promises := (promises s2)[this :=
                 t'\<lparr>failCallbacks := failCallbacks t' @ [makeCallback promise onReject ''reject'']\<rparr>]\<rparr>
      in (promise, run this s3))"

definition Promise_done :: "nat \<Rightarrow> func \<Rightarrow> state \<Rightarrow> nat \<times> state" where
  "Promise_done this onResolve s = Promise_then this onResolve (NonFn Null) s"

definition Promise_fail :: "nat \<Rightarrow> func \<Rightarrow> state \<Rightarrow> nat \<times> state" where
  "Promise_fail this onReject s = Promise_then this (NonFn Null) onReject s"

definition Promise_catch :: "nat \<Rightarrow> func \<Rightarrow> state \<Rightarrow> nat \<times> state" where
  "Promise_catch this onFail s = Promise_then this (NonFn Null) onFail s"

section \<open>The static operations resolve, reject and defer\<close>

definition Promise_resolve :: "val \<Rightarrow> state \<Rightarrow> nat \<times> state" where
  "Promise_resolve v s = (let (promise, s1) = new_pending s in (promise, resolve promise v s1))"

definition Promise_reject :: "val \<Rightarrow> state \<Rightarrow> nat \<times> state" where
  "Promise_reject reason s =
     (let (promise, s1) = new_pending s in (promise, reject promise reason s1))"

record deferred =
  d_promise :: nat
  d_resolve :: func
  d_reject :: func

definition Promise_defer :: "state \<Rightarrow> deferred \<times> state" where
  "Promise_defer s =
     (let (promise, s1) = new_pending s in
      (\<lparr>d_promise = promise, d_resolve = ResolveFn promise, d_reject = RejectFn promise\<rparr>, s1))"

section \<open>Calling a function value: makeCallback and the resolution of a returned value\<close>

text \<open>\<^verbatim>\<open>typeof callback === 'function'\<close>\<close>

fun is_function :: "func \<Rightarrow> bool" where
  "is_function (NonFn v) = False"
| "is_function f = True"

text \<open>
  \<^verbatim>\<open>x && (typeof x === 'object' || typeof x === 'function')\<close>: arrays, error objects,
  promises and foreign objects; \<^verbatim>\<open>null\<close> has type object and is falsy.
\<close>

fun is_object :: "val \<Rightarrow> bool" where
  "is_object (Arr xs) = True"
| "is_object (TypeError m) = True"
| "is_object (PromiseRef q) = True"
| "is_object (ObjRef obj) = True"
| "is_object v = False"

text \<open>
  \<^verbatim>\<open>then = x.then\<close> for a foreign object. A reference outside the table stands for an
  object without that member.
\<close>

definition get_then :: "state \<Rightarrow> nat \<Rightarrow> then_member" where
  "get_then s obj = (if obj < length (objs s) then objs s ! obj else ThenValue Undefined)"

text \<open>
  \<^verbatim>\<open>try { x = callback(value); } catch (e) { reject(promise, e); }\<close>: the value of \<^verbatim>\<open>x\<close>
  and the state after it. When the callback throws, \<^verbatim>\<open>x\<close> stays \<^verbatim>\<open>undefined\<close> and the
  function goes on.
\<close>

definition try_callback :: "nat \<Rightarrow> outcome \<Rightarrow> state \<Rightarrow> val \<times> state" where
  "try_callback p r s = (case r of Return x \<Rightarrow> (x, s) | Throw e \<Rightarrow> (Undefined, reject p e s))"

text \<open>
  \<^verbatim>\<open>result[index] = value\<close> on a JavaScript array: writing past the end extends the array;
  the holes left in between read as \<^verbatim>\<open>undefined\<close>.
\<close>

definition arr_set :: "val list \<Rightarrow> nat \<Rightarrow> val \<Rightarrow> val list" where
  "arr_set xs i v =
     (if i < length xs then xs[i := v]
      else xs @ replicate (i - length xs) Undefined @ [v])"

text \<open>
  \<open>call_fn n f v s\<close> calls the function value \<open>f\<close> with the argument \<open>v\<close>. The recursion of
  \<^verbatim>\<open>resolveThenable\<close> through the \<^verbatim>\<open>then\<close> methods of foreign objects is not bounded by the
  source (two objects may resolve to each other for ever), so \<open>n\<close> bounds the depth of
  nested \<^verbatim>\<open>then.call\<close>; \<open>None\<close> says the bound was reached.

  \<open>resolveThenable n p x s\<close> is the function of that name (lines 344 to 402) for the promise
  \<open>p\<close> of the enclosing \<^verbatim>\<open>promiseCallback\<close>; it never throws. The \<^verbatim>\<open>then\<close> of a promise of this
  library is \<^verbatim>\<open>Promise.prototype.then\<close>, and arrays and error objects have none.
  \<open>run_steps n steps f g s\<close> runs a foreign \<^verbatim>\<open>then\<close> with the capabilities \<open>f\<close> and \<open>g\<close>.

  In \<^verbatim>\<open>promiseCallback\<close>, a value \<open>PromiseRef q\<close> is what \<^verbatim>\<open>x instanceof Promise\<close> accepts. The
  callback of \<^verbatim>\<open>Promise.all\<close> passes the array \<^verbatim>\<open>result\<close> to \<^verbatim>\<open>resolve\<close> when the last element has
  arrived; the model passes its contents at that moment.
\<close>

fun call_fn :: "nat \<Rightarrow> func \<Rightarrow> val \<Rightarrow> state \<Rightarrow> (outcome \<times> state) option"
  and resolveThenable :: "nat \<Rightarrow> nat \<Rightarrow> val \<Rightarrow> state \<Rightarrow> state option"
  and run_steps :: "nat \<Rightarrow> step list \<Rightarrow> func \<Rightarrow> func \<Rightarrow> state \<Rightarrow> (outcome \<times> state) option"
where
  "call_fn n (NonFn f) v s = Some (Throw (TypeError ''TypeError: not a function''), s)"
| "call_fn n (UserFn f) v s = Some (f v, s\<lparr>calls := calls s @ [(f, v)]\<rparr>)"
| "call_fn n (ResolveFn p) v s = Some (Return Undefined, resolve p v s)"
| "call_fn n (RejectFn p) v s = Some (Return Undefined, reject p v s)"
| "call_fn n (ResolveRaceCallback p c) v s =
     (if cells s ! c then Some (Return Undefined, s)
      else Some (Return Undefined, resolve p v (s\<lparr>cells := (cells s)[c := True]\<rparr>)))"
| "call_fn n (RejectRaceCallback p c) v s =
     (if cells s ! c then Some (Return Undefined, s)
      else Some (Return Undefined, reject p v (s\<lparr>cells := (cells s)[c := True]\<rparr>)))"
| "call_fn n (AllCallback a index action) v s =
     (let vars = alls s ! a in
      if action = ''reject'' then Some (Return Undefined, reject (all_promise vars) v s)
      else
        let result = arr_set (all_result vars) index v;
            count = all_count vars + 1;
            s1 = s\<lparr>alls := (alls s)[a := vars\<lparr>all_result := result, all_count := count\<rparr>]\<rparr>
        in if count = all_length vars
           then Some (Return Undefined, resolve (all_promise vars) (Arr result) s1)
           else Some (Return Undefined, s1))"
| "call_fn n (ResolvePromise p x c) y s =
     (if cells s ! c then Some (Return Undefined, s)
      else
        let s1 = s\<lparr>cells := (cells s)[c := True]\<rparr> in
        if y = x
        then Some (Throw (TypeError
          ''TypeError: The return value could not be same with the previous thenable object''), s1)
        else (case resolveThenable n p y s1 of
                None \<Rightarrow> None
              | Some s2 \<Rightarrow> Some (Return Undefined, s2)))"
| "call_fn n (RejectPromise p c) e s =
     (if cells s ! c then Some (Return Undefined, s)
      else Some (Return Undefined, reject p e (s\<lparr>cells := (cells s)[c := True]\<rparr>)))"
| "call_fn n (PromiseCallback p callback action) v s =
     (if is_function callback then
        (case call_fn n callback v s of
           None \<Rightarrow> None
         | Some (r, s1) \<Rightarrow>
             (case try_callback p r s1 of
                (x, s2) \<Rightarrow>
                  if x = PromiseRef p then
                    Some (Return Undefined, reject p (TypeError
                      ''TypeError: The return value could not be same with the promise'') s2)
                  else
                    (case x of
                       PromiseRef q \<Rightarrow>
                         Some (Return Undefined, snd (Promise_then q (ResolveFn p) (RejectFn p) s2))
                     | _ \<Rightarrow>
                         (case resolveThenable n p x s2 of
                            None \<Rightarrow> None
                          | Some s3 \<Rightarrow> Some (Return Undefined, s3)))))
      else Some (Return Undefined,
             if action = ''resolve'' then resolve p v s else reject p v s))"
| "resolveThenable n p x s =
     (if is_object x then
        (case x of
           PromiseRef q \<Rightarrow>
             (let c = length (cells s);
                  s1 = s\<lparr>cells := cells s @ [False]\<rparr>
              in Some (snd (Promise_then q (ResolvePromise p x c) (RejectPromise p c) s1)))
         | ObjRef obj \<Rightarrow>
             (case get_then s obj of
                ThenThrows e \<Rightarrow> Some (reject p e s)
              | ThenValue t \<Rightarrow> Some (resolve p x s)
              | ThenFn steps \<Rightarrow>
                  (let c = length (cells s);
                       s1 = s\<lparr>cells := cells s @ [False]\<rparr>
                   in if n = 0 then None
                      else
                        (case run_steps (n - 1) steps (ResolvePromise p x c) (RejectPromise p c) s1 of
                           None \<Rightarrow> None
                         | Some (Return r, s2) \<Rightarrow> Some s2
                         | Some (Throw e, s2) \<Rightarrow>
                             Some (if \<not> cells s2 ! c then reject p e s2 else s2))))
         | _ \<Rightarrow> Some (resolve p x s))
      else Some (resolve p x s))"
| "run_steps n [] f g s = Some (Return Undefined, s)"
| "run_steps n (CallResolve y # steps) f g s =
     (case call_fn n f y s of
        None \<Rightarrow> None
      | Some (Throw e, s1) \<Rightarrow> Some (Throw e, s1)
      | Some (Return r, s1) \<Rightarrow> run_steps n steps f g s1)"
| "run_steps n (CallReject e # steps) f g s =
     (case call_fn n g e s of
        None \<Rightarrow> None
      | Some (Throw e', s1) \<Rightarrow> Some (Throw e', s1)
      | Some (Return r, s1) \<Rightarrow> run_steps n steps f g s1)"
| "run_steps n (ThrowV e # steps) f g s = Some (Throw e, s)"

declare resolveThenable.simps [simp del]

section \<open>The scheduler\<close>

text \<open>
  The function \<^verbatim>\<open>run\<close> hands to \<^verbatim>\<open>setTimeout\<close>: it calls the callbacks in the order of the
  array. An exception out of a callback would end the loop.
\<close>

fun run_callbacks :: "nat \<Rightarrow> func list \<Rightarrow> val \<Rightarrow> state \<Rightarrow> (outcome \<times> state) option" where
  "run_callbacks n [] v s = Some (Return Undefined, s)"
| "run_callbacks n (cb # callbacks) v s =
     (case call_fn n cb v s of
        None \<Rightarrow> None
      | Some (Throw e, s1) \<Rightarrow> Some (Throw e, s1)
      | Some (Return r, s1) \<Rightarrow> run_callbacks n callbacks v s1)"

text \<open>The host runs the oldest scheduled function.\<close>

definition run_task :: "nat \<Rightarrow> state \<Rightarrow> (outcome \<times> state) option" where
  "run_task n s =
     (case tasks s of
        [] \<Rightarrow> Some (Return Undefined, s)
      | (callbacks, v) # rest \<Rightarrow> run_callbacks n callbacks v (s\<lparr>tasks := rest\<rparr>))"

text \<open>
  The host goes on until nothing is scheduled; \<open>k\<close> bounds the number of scheduled
  functions it runs. An exception out of a scheduled function is not caught by the
  library; the run stops at it.
\<close>

fun run_all :: "nat \<Rightarrow> nat \<Rightarrow> state \<Rightarrow> (outcome \<times> state) option" where
  "run_all n k s =
     (if tasks s = [] then Some (Return Undefined, s)
      else if k = 0 then None
      else
        (case run_task n s of
           None \<Rightarrow> None
         | Some (Throw e, s1) \<Rightarrow> Some (Throw e, s1)
         | Some (Return r, s1) \<Rightarrow> run_all n (k - 1) s1))"

declare run_all.simps [simp del]

section \<open>race and all\<close>

text \<open>
  \<^verbatim>\<open>!iterable || !iterable.hasOwnProperty('length')\<close> is false for an array and for a
  string that is not empty (its elements are its characters); every other value of the
  model is falsy or has no own property \<^verbatim>\<open>length\<close> (a foreign object of the model has the
  member \<^verbatim>\<open>then\<close> and no other).
\<close>

fun array_like :: "val \<Rightarrow> val list option" where
  "array_like (Arr xs) = Some xs"
| "array_like (Str cs) = (if cs = [] then None else Some (map (\<lambda>c. Str [c]) cs))"
| "array_like v = None"

text \<open>
  \<^verbatim>\<open>if (!(iterate instanceof Promise)) { iterate = Promise.resolve(iterate); }\<close>
\<close>

definition coerce :: "val \<Rightarrow> state \<Rightarrow> nat \<times> state" where
  "coerce iterate s = (case iterate of PromiseRef q \<Rightarrow> (q, s) | _ \<Rightarrow> Promise_resolve iterate s)"

text \<open>
  The loop of \<^verbatim>\<open>Promise.race\<close>. The variable \<^verbatim>\<open>settled\<close> is hoisted: it exists (and is falsy)
  from the start of the call, so its cell \<open>c\<close> is allocated before the loop.
\<close>

fun race_loop :: "nat \<Rightarrow> nat \<Rightarrow> val list \<Rightarrow> state \<Rightarrow> state" where
  "race_loop promise c [] s = s"
| "race_loop promise c (x # xs) s =
     (let (iterate, s1) = coerce x s;
          s2 = snd (Promise_then iterate (ResolveRaceCallback promise c)
                      (RejectRaceCallback promise c) s1)
      in race_loop promise c xs s2)"

text \<open>The function has no \<^verbatim>\<open>return\<close> statement: a call that does not throw returns \<^verbatim>\<open>undefined\<close>.\<close>

definition Promise_race :: "val \<Rightarrow> state \<Rightarrow> outcome \<times> state" where
  "Promise_race iterable s =
     (case array_like iterable of
        None \<Rightarrow>
          (Throw (TypeError ''TypeError: Parameter `iterable` must be a iterable object''), s)
      | Some xs \<Rightarrow>
          (let (promise, s1) = new_pending s;
               c = length (cells s1);
               s2 = s1\<lparr>cells := cells s1 @ [False]\<rparr>
           in (Return Undefined, race_loop promise c xs s2)))"

text \<open>
  The loop of \<^verbatim>\<open>Promise.all\<close>, \<open>i\<close> the loop index. \<^verbatim>\<open>result\<close> and \<^verbatim>\<open>count\<close> are assigned after
  the loop and before any callback can run, so the variables \<open>a\<close> of the call are allocated
  with these values before it.
\<close>

fun all_loop :: "nat \<Rightarrow> nat \<Rightarrow> val list \<Rightarrow> state \<Rightarrow> state" where
  "all_loop a i [] s = s"
| "all_loop a i (x # xs) s =
     (let (iterate, s1) = coerce x s;
          s2 = snd (Promise_then iterate (AllCallback a i ''resolve'') (AllCallback a i ''reject'') s1)
      in all_loop a (i + 1) xs s2)"

definition Promise_all :: "val \<Rightarrow> state \<Rightarrow> outcome \<times> state" where
  "Promise_all iterable s =
     (case array_like iterable of
        None \<Rightarrow>
          (Throw (TypeError ''TypeError: Parameter `iterable` must be a iterable object''), s)
      | Some xs \<Rightarrow>
          (let (promise, s1) = new_pending s;
               a = length (alls s1);
               s2 = s1\<lparr>alls := alls s1 @
                      [\<lparr>all_promise = promise, all_length = length xs,
                        all_result = [], all_count = 0\<rparr>]\<rparr>
           in (Return Undefined, all_loop a 0 xs s2)))"

section \<open>Initial states\<close>

text \<open>A program starts with no promise, no closure variable and nothing scheduled.\<close>

definition init :: "then_member list \<Rightarrow> state" where
  "init os = \<lparr>promises = [], objs = os, cells = [], alls = [], tasks = [], calls = []\<rparr>"

section \<open>What no operation undoes\<close>

text \<open>
  \<open>stable s s'\<close>: from \<open>s\<close> to \<open>s'\<close> no promise was removed, every promise that was settled
  kept its status and its value, every closure variable that was set stayed set, and the
  foreign objects are the same.
\<close>

definition stable :: "state \<Rightarrow> state \<Rightarrow> bool" where
  "stable s s' \<longleftrightarrow>
     length (promises s) \<le> length (promises s') \<and>
     (\<forall>p < length (promises s). pstatus (promises s ! p) \<noteq> PENDING \<longrightarrow>
        pstatus (promises s' ! p) = pstatus (promises s ! p) \<and>
        pvalue (promises s' ! p) = pvalue (promises s ! p)) \<and>
     length (cells s) \<le> length (cells s') \<and>
     (\<forall>c < length (cells s). cells s ! c \<longrightarrow> cells s' ! c) \<and>
     objs s' = objs s"


text \<open>
  \<open>handler_calls f v\<close>: the invocations of handlers of the caller that the call \<open>f(v)\<close> is to
  make, in order. A \<^verbatim>\<open>promiseCallback\<close> invokes what its \<^verbatim>\<open>callback\<close> invokes; the other closures
  of the library invoke no handler.
\<close>

fun handler_calls :: "func \<Rightarrow> val \<Rightarrow> ((val \<Rightarrow> outcome) \<times> val) list" where
  "handler_calls (UserFn h) v = [(h, v)]"
| "handler_calls (PromiseCallback p callback action) v = handler_calls callback v"
| "handler_calls f v = []"

section \<open>Lemmas: every operation is stable\<close>

lemma stable_refl [simp]: "stable s s"
  by (simp add: stable_def)

lemma stable_trans: "stable s t \<Longrightarrow> stable t u \<Longrightarrow> stable s u"
proof -
  assume a: "stable s t" and b: "stable t u"
  have 1: "length (promises s) \<le> length (promises u)" "length (cells s) \<le> length (cells u)"
    "objs u = objs s"
    using a b by (simp_all add: stable_def)
  have 2: "pstatus (promises u ! p) = pstatus (promises s ! p) \<and>
           pvalue (promises u ! p) = pvalue (promises s ! p)"
    if "p < length (promises s)" "pstatus (promises s ! p) \<noteq> PENDING" for p
  proof -
    have "pstatus (promises t ! p) = pstatus (promises s ! p) \<and>
          pvalue (promises t ! p) = pvalue (promises s ! p)"
      using a that by (simp add: stable_def)
    moreover have "p < length (promises t)" using a that by (simp add: stable_def)
    ultimately show ?thesis using b that by (simp add: stable_def)
  qed
  have 3: "cells u ! c" if "c < length (cells s)" "cells s ! c" for c
  proof -
    have "cells t ! c" "c < length (cells t)" using a that by (simp_all add: stable_def)
    then show ?thesis using b by (simp add: stable_def)
  qed
  show ?thesis unfolding stable_def using 1 2 3 by blast
qed

lemma nth_upd: "j < length xs \<Longrightarrow> xs[i := x] ! j = (if i = j then x else xs ! j)"
  by (simp add: nth_list_update)

lemma stable_run: "stable s (run p s)"
  by (auto simp: stable_def run_def Let_def nth_upd)

lemma stable_resolve: "stable s (resolve p v s)"
  by (auto simp: stable_def resolve_def run_def Let_def nth_upd)

lemma stable_reject: "stable s (reject p v s)"
  by (auto simp: stable_def reject_def run_def Let_def nth_upd)

lemma stable_new_pending: "stable s (snd (new_pending s))"
  by (auto simp: stable_def new_pending_def nth_append)

lemma stable_then: "stable s (snd (Promise_then this a b s))"
  by (auto simp: stable_def Promise_then_def new_pending_def run_def Let_def nth_upd nth_append)

lemma stable_cell: "stable s (s\<lparr>cells := (cells s)[c := True]\<rparr>)"
  by (auto simp: stable_def nth_upd)

lemma stable_cell_new: "stable s (s\<lparr>cells := cells s @ [b]\<rparr>)"
  by (auto simp: stable_def nth_append)

lemma stable_alls: "stable s (s\<lparr>alls := a\<rparr>)"
  by (auto simp: stable_def)

lemma stable_calls: "stable s (s\<lparr>calls := a\<rparr>)"
  by (auto simp: stable_def)


lemma stable_try_callback:
  "try_callback p r s = (x, s') \<Longrightarrow> stable s s'"
  by (auto simp: try_callback_def stable_reject split: outcome.splits)

lemma stable_interp:
  "call_fn n f v s = Some (r, s') \<Longrightarrow> stable s s'"
  "resolveThenable n p x s = Some s' \<Longrightarrow> stable s s'"
  "run_steps n steps f1 f2 s = Some (r, s') \<Longrightarrow> stable s s'"
proof (induction n f v s and n p x s and n steps f1 f2 s arbitrary: r s' and s' and r s'
       rule: call_fn_resolveThenable_run_steps.induct)
  case (1 n f v s)
  then show ?case by simp
next
  case (2 n f v s)
  then show ?case by (auto simp: stable_calls)
next
  case (3 n p v s)
  then show ?case by (auto simp: stable_resolve)
next
  case (4 n p v s)
  then show ?case by (auto simp: stable_reject)
next
  case (5 n p c v s)
  then show ?case
    by (auto split: if_splits intro: stable_trans [OF stable_cell stable_resolve])
next
  case (6 n p c v s)
  then show ?case
    by (auto split: if_splits intro: stable_trans [OF stable_cell stable_reject])
next
  case (7 n a index action v s)
  then show ?case
    by (auto simp: Let_def stable_reject split: if_splits
             intro: stable_trans [OF stable_alls stable_resolve] stable_alls)
next
  case (8 n p x c y s)
  show ?case
  proof (cases "cells s ! c")
    case True
    with 8(2) show ?thesis by simp
  next
    case False
    show ?thesis
    proof (cases "y = x")
      case True
      with False 8(2) show ?thesis by (auto simp: stable_cell)
    next
      case ne: False
      with False 8(2) obtain s2 where
        r: "resolveThenable n p y (s\<lparr>cells := (cells s)[c := True]\<rparr>) = Some s2" and e: "s' = s2"
        by (auto simp: Let_def split: option.splits)
      from 8(1) [OF False refl ne r] e show ?thesis
        using stable_cell stable_trans by blast
    qed
  qed
next
  case (9 n p c e s)
  then show ?case
    by (auto split: if_splits intro: stable_trans [OF stable_cell stable_reject])
next
  case (10 n p callback action v s)
  show ?case
  proof (cases "is_function callback")
    case False
    with "10.prems" show ?thesis by (auto simp: stable_resolve stable_reject split: if_splits)
  next
    case True
    from True "10.prems" obtain r1 s1 where c1: "call_fn n callback v s = Some (r1, s1)"
      by (auto split: option.splits)
    obtain x s2 where t: "try_callback p r1 s1 = (x, s2)" by force
    have ss1: "stable s s1" using "10.IH"(1) [OF True c1] .
    have s12: "stable s1 s2" using t by (rule stable_try_callback)
    have ss2: "stable s s2" using ss1 s12 by (rule stable_trans)
    show ?thesis
    proof (cases "x = PromiseRef p")
      case xp: True
      with True "10.prems" c1 t have "s' = reject p (TypeError
          ''TypeError: The return value could not be same with the promise'') s2"
        by simp
      then show ?thesis using ss2 stable_reject stable_trans by blast
    next
      case xp: False
      show ?thesis
      proof (cases "\<exists>q. x = PromiseRef q")
        case True
        then obtain q where q: "x = PromiseRef q" by blast
        with \<open>is_function callback\<close> "10.prems" c1 t xp
        have "s' = snd (Promise_then q (ResolveFn p) (RejectFn p) s2)" by simp
        then show ?thesis using ss2 stable_then stable_trans by blast
      next
        case False
        with \<open>is_function callback\<close> "10.prems" c1 t xp
        obtain s3 where r3: "resolveThenable n p x s2 = Some s3" and e: "s' = s3"
          by (cases x) (auto split: option.splits)
        have "stable s2 s3"
          using "10.IH"(2-) [OF \<open>is_function callback\<close> c1 refl t [symmetric] xp _ r3] False
          by (cases x) auto
        then show ?thesis using ss2 e stable_trans by blast
      qed
    qed
  qed
next
  case (11 n p x s)
  note res = "11.prems" [unfolded resolveThenable.simps [of n p x s]]
  show ?case
  proof (cases x)
    case (PromiseRef q)
    with res show ?thesis
      by (auto simp: Let_def intro: stable_trans [OF stable_cell_new stable_then])
  next
    case (ObjRef obj)
    show ?thesis
    proof (cases "get_then s obj")
      case (ThenThrows e)
      with ObjRef res show ?thesis by (auto simp: stable_reject)
    next
      case (ThenValue t)
      with ObjRef res show ?thesis by (auto simp: stable_resolve)
    next
      case (ThenFn steps)
      let ?c = "length (cells s)"
      let ?s1 = "s\<lparr>cells := cells s @ [False]\<rparr>"
      from ObjRef ThenFn res have n0: "n \<noteq> 0" by (auto simp: Let_def split: if_splits)
      from ObjRef ThenFn res n0 obtain r2 s2 where
        rs: "run_steps (n - 1) steps (ResolvePromise p x ?c) (RejectPromise p ?c) ?s1 = Some (r2, s2)"
        by (auto simp: Let_def split: option.splits)
      have st: "stable ?s1 s2"
        using "11.IH" [OF _ ObjRef ThenFn refl refl n0 rs] ObjRef by simp
      have "stable s2 s'"
        using ObjRef ThenFn res n0 rs
        by (auto simp: Let_def stable_reject split: outcome.splits if_splits)
      with st show ?thesis using stable_cell_new stable_trans by blast
    qed
  qed (use res in \<open>auto simp: stable_resolve\<close>)
next
  case (12 n f g s)
  then show ?case by simp
next
  case (13 n y steps f g s)
  then show ?case
    by (auto split: option.splits outcome.splits intro: stable_trans) 
next
  case (14 n e steps f g s)
  then show ?case
    by (auto split: option.splits outcome.splits intro: stable_trans)
next
  case (15 n e steps f g s)
  then show ?case by simp
qed

lemma stable_run_callbacks:
  "run_callbacks n cbs v s = Some (r, s') \<Longrightarrow> stable s s'"
proof (induction cbs arbitrary: s)
  case Nil
  then show ?case by simp
next
  case (Cons cb cbs)
  then show ?case
    by (auto split: option.splits outcome.splits dest: stable_interp(1) intro: stable_trans)
qed

lemma stable_tasks: "stable s (s\<lparr>tasks := ts\<rparr>)"
  by (simp add: stable_def)

lemma stable_run_task:
  "run_task n s = Some (r, s') \<Longrightarrow> stable s s'"
  unfolding run_task_def
  by (auto split: list.splits dest!: stable_run_callbacks intro: stable_trans [OF stable_tasks])

lemma stable_settled:
  "stable s s' \<Longrightarrow> p < length (promises s) \<Longrightarrow> pstatus (promises s ! p) \<noteq> PENDING \<Longrightarrow>
   pstatus (promises s' ! p) = pstatus (promises s ! p) \<and>
   pvalue (promises s' ! p) = pvalue (promises s ! p)"
  by (simp add: stable_def)

text \<open>The definitions a concrete run unfolds.\<close>

lemmas eval_defs = Promise_reject_def Promise_resolve_def Promise_then_def new_pending_def init_def
  reject_def resolve_def run_def makeCallback_def Let_def

section \<open>The model at work\<close>

text \<open>
  \<^verbatim>\<open>new Promise(empty)\<close> is \<open>new_pending\<close>, and the capabilities of a deferred settle its
  promise. Then four runs to the end: a foreign object that calls both capabilities and
  throws (the first call wins), \<^verbatim>\<open>all\<close> of two values, \<^verbatim>\<open>all\<close> with a rejected promise, and
  \<^verbatim>\<open>race\<close> of two values; the result promise of a combinator is the first promise the call
  creates.
\<close>

lemma new_Promise_empty:
  "Promise_new empty s = (Return (PromiseRef (length (promises s))), snd (new_pending s))"
  by (simp add: Promise_new_def empty_def new_pending_def)

lemma defer_capabilities:
  "call_fn n (d_resolve (fst (Promise_defer s))) v (snd (Promise_defer s)) =
     Some (Return Undefined, resolve (d_promise (fst (Promise_defer s))) v (snd (new_pending s))) \<and>
   call_fn n (d_reject (fst (Promise_defer s))) v (snd (Promise_defer s)) =
     Some (Return Undefined, reject (d_promise (fst (Promise_defer s))) v (snd (new_pending s)))"
  by (simp add: Promise_defer_def new_pending_def)

lemmas run_defs = eval_defs run_all.simps run_task_def try_callback_def resolveThenable.simps
  get_then_def Promise_all_def Promise_race_def coerce_def arr_set_def

lemma run_adversarial_thenable:
  "map_option (\<lambda>(r, s). (r, map pstatus (promises s), map pvalue (promises s), tasks s))
     (run_all 1 3
        (snd (Promise_then 0 (UserFn (\<lambda>v. Return (ObjRef 0))) (NonFn Undefined)
           (snd (Promise_resolve (Num 1)
              (init [ThenFn [CallResolve (Num 42), CallReject (Num 7), ThrowV (Num 9)]])))))) =
   Some (Return Undefined, [FULLFILLED, FULLFILLED], [Num 1, Num 42], [])"
  by (simp add: run_defs)

lemma run_all_of_two:
  "map_option (\<lambda>(r, s). (r, pstatus (promises s ! 0), pvalue (promises s ! 0), tasks s))
     (run_all 0 10 (snd (Promise_all (Arr [Num 1, Num 2]) (init [])))) =
   Some (Return Undefined, FULLFILLED, Arr [Num 1, Num 2], [])"
  by (simp add: run_defs)

lemma run_all_with_rejected:
  "map_option (\<lambda>(r, s). (r, pstatus (promises s ! 1), pvalue (promises s ! 1), tasks s))
     (run_all 0 10 (snd (Promise_all (Arr [PromiseRef 0, Num 2])
        (snd (Promise_reject (Str ''x'') (init [])))))) =
   Some (Return Undefined, REJECTED, Str ''x'', [])"
  by (simp add: run_defs)

lemma run_race_of_two:
  "map_option (\<lambda>(r, s). (r, pstatus (promises s ! 0), pvalue (promises s ! 0), tasks s))
     (run_all 0 10 (snd (Promise_race (Arr [Num 1, Num 2]) (init [])))) =
   Some (Return Undefined, FULLFILLED, Num 1, [])"
  by (simp add: run_defs)

section \<open>C5: a promise settles at most once\<close>

text \<open>
  C5. Once a promise has left \<open>PENDING\<close>, \<open>resolve\<close> and \<open>reject\<close> on it return the state as
  it is, and no call of any function value (the capabilities of the constructor and of
  \<^verbatim>\<open>Promise.defer\<close>, the callbacks of \<^verbatim>\<open>race\<close> and \<^verbatim>\<open>all\<close>, the callbacks \<^verbatim>\<open>then\<close> registers)
  and no scheduled function changes its status or its value. Leaving \<open>PENDING\<close> is
  therefore the only transition, and it happens at most once.
\<close>

theorem settle_once:
  assumes "p < length (promises s)" and "pstatus (promises s ! p) \<noteq> PENDING"
  shows "resolve p v s = s \<and> reject p v s = s \<and>
         (\<forall>n f w r s'. call_fn n f w s = Some (r, s') \<or> run_task n s = Some (r, s') \<longrightarrow>
            pstatus (promises s' ! p) = pstatus (promises s ! p) \<and>
            pvalue (promises s' ! p) = pvalue (promises s ! p))"
proof -
  have "resolve p v s = s" "reject p v s = s"
    using assms(2) by (simp_all add: resolve_def reject_def)
  moreover have "pstatus (promises s' ! p) = pstatus (promises s ! p) \<and>
                 pvalue (promises s' ! p) = pvalue (promises s ! p)"
    if "call_fn n f w s = Some (r, s') \<or> run_task n s = Some (r, s')" for n f w r s'
    using that stable_interp(1) stable_run_task stable_settled [OF _ assms] by blast
  ultimately show ?thesis by blast
qed

theorem settle_once_witness:
  "(0::nat) < length (promises (snd (Promise_reject (Num 1) (init [])))) \<and>
   pstatus (promises (snd (Promise_reject (Num 1) (init []))) ! 0) = REJECTED \<and>
   resolve 0 (Num 2) (snd (Promise_reject (Num 1) (init []))) = snd (Promise_reject (Num 1) (init [])) \<and>
   reject 0 (Num 3) (snd (Promise_reject (Num 1) (init []))) = snd (Promise_reject (Num 1) (init [])) \<and>
   (\<exists>s'. run_task 0 (snd (Promise_reject (Num 1) (init []))) = Some (Return Undefined, s') \<and>
         pstatus (promises s' ! 0) = REJECTED \<and> pvalue (promises s' ! 0) = Num 1)"
proof -
  let ?s = "snd (Promise_reject (Num 1) (init []))"
  have h1: "0 < length (promises ?s)" by (simp add: eval_defs)
  have h2: "pstatus (promises ?s ! 0) \<noteq> PENDING" by (simp add: eval_defs)
  have v: "pstatus (promises ?s ! 0) = REJECTED" "pvalue (promises ?s ! 0) = Num 1"
    by (simp_all add: eval_defs)
  have t: "\<exists>s'. run_task 0 ?s = Some (Return Undefined, s')"
    by (simp add: run_task_def eval_defs)
  from settle_once [OF h1 h2] h1 v t show ?thesis by metis
qed

section \<open>C1: what race and all return\<close>

text \<open>
  C1. For every array, a call of \<^verbatim>\<open>Promise.race\<close> or of \<^verbatim>\<open>Promise.all\<close> returns
  \<^verbatim>\<open>undefined\<close>: both functions create their result promise and end without a
  \<^verbatim>\<open>return\<close> statement, so the caller never gets it.
\<close>

theorem race_all_return_undefined:
  "fst (Promise_race (Arr xs) s) = Return Undefined \<and>
   fst (Promise_all (Arr xs) s) = Return Undefined"
  by (simp add: Promise_race_def Promise_all_def Let_def split: prod.splits)

section \<open>C2: the static resolve\<close>

text \<open>
  C2, as the code has it. For every value \<open>v\<close>, a promise, a foreign object with a
  \<^verbatim>\<open>then\<close> method or anything else, \<^verbatim>\<open>Promise.resolve(v)\<close> is a new promise that is fulfilled
  with exactly \<open>v\<close> when the call returns.
\<close>

theorem Promise_resolve_fulfills_with_argument:
  "fst (Promise_resolve v s) = length (promises s) \<and>
   pstatus (promises (snd (Promise_resolve v s)) ! length (promises s)) = FULLFILLED \<and>
   pvalue (promises (snd (Promise_resolve v s)) ! length (promises s)) = v"
  by (simp add: eval_defs)

text \<open>
  C2 as stated fails. The object 0 has a \<^verbatim>\<open>then\<close> that calls its first argument with 42:
  \<^verbatim>\<open>Promise.resolve\<close> of it is fulfilled with the object itself, and the scheduled function
  that follows changes nothing (the \<^verbatim>\<open>then\<close> is never called). \<^verbatim>\<open>Promise.resolve\<close> of a
  promise fulfilled with 42 is fulfilled with that promise, not with 42.
\<close>

theorem Promise_resolve_keeps_thenable:
  "pstatus (promises (snd (Promise_resolve (ObjRef 0) (init [ThenFn [CallResolve (Num 42)]]))) ! 0)
     = FULLFILLED \<and>
   pvalue (promises (snd (Promise_resolve (ObjRef 0) (init [ThenFn [CallResolve (Num 42)]]))) ! 0)
     = ObjRef 0 \<and>
   run_task 1 (snd (Promise_resolve (ObjRef 0) (init [ThenFn [CallResolve (Num 42)]])))
     = Some (Return Undefined,
         \<lparr>promises = [\<lparr>pstatus = FULLFILLED, pvalue = ObjRef 0,
                        doneCallbacks = [], failCallbacks = []\<rparr>],
          objs = [ThenFn [CallResolve (Num 42)]], cells = [], alls = [], tasks = [], calls = []\<rparr>) \<and>
   pvalue (promises (snd (Promise_resolve (Num 42) (init []))) ! 0) = Num 42 \<and>
   pstatus (promises (snd (Promise_resolve (PromiseRef 0)
      (snd (Promise_resolve (Num 42) (init []))))) ! 1) = FULLFILLED \<and>
   pvalue (promises (snd (Promise_resolve (PromiseRef 0)
      (snd (Promise_resolve (Num 42) (init []))))) ! 1) = PromiseRef 0"
  by (simp add: eval_defs run_task_def)

section \<open>C3: a foreign object that resolves to itself\<close>

text \<open>
  C3. A handler returns the object 0, whose \<^verbatim>\<open>then\<close> calls its first argument with the
  object itself. The capability sets \<^verbatim>\<open>invoked\<close> and throws its type error, and the
  \<^verbatim>\<open>catch\<close> around \<^verbatim>\<open>then.call\<close> drops the exception because \<^verbatim>\<open>invoked\<close> is set. After the host
  has run everything that was scheduled, the promise \<^verbatim>\<open>then\<close> returned (promise 1) is still
  pending and nothing is scheduled. Second conjunct: an object whose \<^verbatim>\<open>then\<close> keeps the
  capability and calls it later with the object itself gets the type error as an exception
  of that call, and the promise (promise 0 there) stays pending as well.
\<close>

theorem self_resolving_thenable_stays_pending:
  "run_all 1 2
     (snd (Promise_then 0 (UserFn (\<lambda>v. Return (ObjRef 0))) (NonFn Undefined)
        (snd (Promise_resolve (Num 1) (init [ThenFn [CallResolve (ObjRef 0)]]))))) =
   Some (Return Undefined,
     \<lparr>promises =
        [\<lparr>pstatus = FULLFILLED, pvalue = Num 1, doneCallbacks = [], failCallbacks = []\<rparr>,
         \<lparr>pstatus = PENDING, pvalue = Undefined, doneCallbacks = [], failCallbacks = []\<rparr>],
      objs = [ThenFn [CallResolve (ObjRef 0)]], cells = [True], alls = [], tasks = [],
      calls = [(\<lambda>v. Return (ObjRef 0), Num 1)]\<rparr>) \<and>
   call_fn n (ResolvePromise 0 (ObjRef 0) 0) (ObjRef 0)
     ((snd (new_pending (init [ThenFn []])))\<lparr>cells := [False]\<rparr>) =
   Some (Throw (TypeError
       ''TypeError: The return value could not be same with the previous thenable object''),
     \<lparr>promises =
        [\<lparr>pstatus = PENDING, pvalue = Undefined, doneCallbacks = [], failCallbacks = []\<rparr>],
      objs = [ThenFn []], cells = [True], alls = [], tasks = [], calls = []\<rparr>)"
  by (simp add: eval_defs run_all.simps run_task_def try_callback_def resolveThenable.simps
        get_then_def)

section \<open>C4: all on the empty array\<close>

text \<open>
  C4. \<^verbatim>\<open>Promise.all([])\<close> creates its result promise and the variables of the call and does
  nothing else: the loop body never runs, no callback exists that could call \<^verbatim>\<open>resolve\<close>,
  and nothing is scheduled. The promise stays pending, and the call returns \<^verbatim>\<open>undefined\<close>.
  \<^verbatim>\<open>Promise.race([])\<close> does the same with its own promise and its variable \<^verbatim>\<open>settled\<close>.
\<close>

theorem all_empty_stays_pending:
  "Promise_all (Arr []) s =
     (Return Undefined,
      s\<lparr>promises := promises s @
           [\<lparr>pstatus = PENDING, pvalue = Undefined, doneCallbacks = [], failCallbacks = []\<rparr>],
        alls := alls s @
           [\<lparr>all_promise = length (promises s), all_length = 0, all_result = [], all_count = 0\<rparr>]\<rparr>) \<and>
   Promise_race (Arr []) s =
     (Return Undefined,
      s\<lparr>promises := promises s @
           [\<lparr>pstatus = PENDING, pvalue = Undefined, doneCallbacks = [], failCallbacks = []\<rparr>],
        cells := cells s @ [False]\<rparr>)"
  by (simp add: Promise_all_def Promise_race_def new_pending_def)

section \<open>C9: then leaves the status and the value of its promise alone\<close>

text \<open>
  C9. For a promise \<open>this\<close> of the store and any two arguments, \<^verbatim>\<open>this.then(a, b)\<close> leaves the
  status and the value of \<open>this\<close> as they were. On a pending promise it appends one callback
  to each of the two arrays; on a settled one both arrays are empty afterwards.
\<close>

theorem then_keeps_status:
  assumes "this < length (promises s)"
  shows "pstatus (promises (snd (Promise_then this a b s)) ! this) = pstatus (promises s ! this) \<and>
         pvalue (promises (snd (Promise_then this a b s)) ! this) = pvalue (promises s ! this) \<and>
         (if pstatus (promises s ! this) = PENDING
          then doneCallbacks (promises (snd (Promise_then this a b s)) ! this) =
                 doneCallbacks (promises s ! this) @ [makeCallback (length (promises s)) a ''resolve''] \<and>
               failCallbacks (promises (snd (Promise_then this a b s)) ! this) =
                 failCallbacks (promises s ! this) @ [makeCallback (length (promises s)) b ''reject'']
          else doneCallbacks (promises (snd (Promise_then this a b s)) ! this) = [] \<and>
               failCallbacks (promises (snd (Promise_then this a b s)) ! this) = [])"
  using assms by (simp add: Promise_then_def new_pending_def run_def Let_def nth_append)

theorem then_keeps_status_witness:
  "(0::nat) < length (promises (snd (new_pending (init [])))) \<and>
   pstatus (promises (snd (Promise_then 0 (UserFn Return) (NonFn Null)
      (snd (new_pending (init []))))) ! 0) = PENDING \<and>
   doneCallbacks (promises (snd (Promise_then 0 (UserFn Return) (NonFn Null)
      (snd (new_pending (init []))))) ! 0) = [makeCallback 1 (UserFn Return) ''resolve''] \<and>
   (0::nat) < length (promises (snd (Promise_resolve (Num 1) (init [])))) \<and>
   pstatus (promises (snd (Promise_then 0 (UserFn Return) (NonFn Null)
      (snd (Promise_resolve (Num 1) (init []))))) ! 0) = FULLFILLED \<and>
   pvalue (promises (snd (Promise_then 0 (UserFn Return) (NonFn Null)
      (snd (Promise_resolve (Num 1) (init []))))) ! 0) = Num 1 \<and>
   doneCallbacks (promises (snd (Promise_then 0 (UserFn Return) (NonFn Null)
      (snd (Promise_resolve (Num 1) (init []))))) ! 0) = []"
proof -
  let ?p = "snd (new_pending (init []))"
  let ?f = "snd (Promise_resolve (Num 1) (init []))"
  have hp: "0 < length (promises ?p)" by (simp add: eval_defs)
  have hf: "0 < length (promises ?f)" by (simp add: eval_defs)
  have vp: "pstatus (promises ?p ! 0) = PENDING" "doneCallbacks (promises ?p ! 0) = []"
    "length (promises ?p) = 1"
    by (simp_all add: eval_defs)
  have vf: "pstatus (promises ?f ! 0) = FULLFILLED" "pvalue (promises ?f ! 0) = Num 1"
    by (simp_all add: eval_defs)
  show ?thesis
    using then_keeps_status [OF hp, of "UserFn Return" "NonFn Null"]
          then_keeps_status [OF hf, of "UserFn Return" "NonFn Null"] hp hf vp vf
    by simp
qed

section \<open>C10: the constructor\<close>

lemma stable_run_resolver: "stable s (snd (run_resolver steps p s))"
proof (induction steps p s rule: run_resolver.induct)
  case (2 v steps p s)
  then show ?case using stable_resolve stable_trans by (metis run_resolver.simps(2))
next
  case (3 v steps p s)
  then show ?case using stable_reject stable_trans by (metis run_resolver.simps(3))
qed simp_all

lemma snd_Promise_new:
  "snd (Promise_new (Resolver steps) s) =
     snd (run_resolver steps (length (promises s)) (snd (new_pending s)))"
  by (simp add: Promise_new_def new_pending_def split: prod.splits outcome.splits)

lemma run_resolver_no_throw:
  "\<forall>e. ThrowV e \<notin> set pre \<Longrightarrow> fst (run_resolver pre p s) = Return Undefined"
  by (induction pre p s rule: run_resolver.induct) auto

lemma run_resolver_throw:
  "\<forall>e'. ThrowV e' \<notin> set pre \<Longrightarrow>
   run_resolver (pre @ ThrowV e # rest) p s = (Throw e, snd (run_resolver pre p s))"
  by (induction pre p s rule: run_resolver.induct) auto

lemma resolve_pending:
  "p < length (promises s) \<Longrightarrow> pstatus (promises s ! p) = PENDING \<Longrightarrow>
   pstatus (promises (resolve p v s) ! p) = FULLFILLED \<and> pvalue (promises (resolve p v s) ! p) = v \<and>
   length (promises (resolve p v s)) = length (promises s)"
  by (simp add: resolve_def run_def Let_def)

lemma reject_pending:
  "p < length (promises s) \<Longrightarrow> pstatus (promises s ! p) = PENDING \<Longrightarrow>
   pstatus (promises (reject p v s) ! p) = REJECTED \<and> pvalue (promises (reject p v s) ! p) = v \<and>
   length (promises (reject p v s)) = length (promises s)"
  by (simp add: reject_def run_def Let_def)

text \<open>
  C10. The constructor runs the resolver before it returns, and the two capabilities work
  during that run: when the resolver first calls \<^verbatim>\<open>resolve\<close> with \<open>v\<close> (or \<^verbatim>\<open>reject\<close>), the
  new promise is fulfilled (rejected) with \<open>v\<close> in the state the constructor leaves, whatever
  the resolver does next. What the resolver throws leaves the constructor as an exception,
  and the throw changes nothing: a resolver that throws first leaves the new promise
  pending, and one that throws after some capability calls leaves the state those calls
  produced.
\<close>

theorem constructor_runs_resolver:
  "pstatus (promises (snd (Promise_new (Resolver (CallResolve v # steps)) s)) ! length (promises s))
     = FULLFILLED \<and>
   pvalue (promises (snd (Promise_new (Resolver (CallResolve v # steps)) s)) ! length (promises s))
     = v \<and>
   pstatus (promises (snd (Promise_new (Resolver (CallReject v # steps)) s)) ! length (promises s))
     = REJECTED \<and>
   pvalue (promises (snd (Promise_new (Resolver (CallReject v # steps)) s)) ! length (promises s))
     = v \<and>
   Promise_new (Resolver (ThrowV e # steps)) s = (Throw e, snd (new_pending s)) \<and>
   pstatus (promises (snd (new_pending s)) ! length (promises s)) = PENDING \<and>
   ((\<forall>e'. ThrowV e' \<notin> set pre) \<longrightarrow>
      Promise_new (Resolver pre) s =
        (Return (PromiseRef (length (promises s))), snd (Promise_new (Resolver pre) s)) \<and>
      Promise_new (Resolver (pre @ ThrowV e # steps)) s =
        (Throw e, snd (Promise_new (Resolver pre) s)))"
proof -
  let ?P = "length (promises s)"
  let ?s1 = "snd (new_pending s)"
  have fresh: "?P < length (promises ?s1)" "pstatus (promises ?s1 ! ?P) = PENDING"
    by (simp_all add: new_pending_def)
  have a: "pstatus (promises s' ! ?P) = FULLFILLED \<and> pvalue (promises s' ! ?P) = v"
    if "s' = snd (Promise_new (Resolver (CallResolve v # steps)) s)" for s'
  proof -
    have "s' = snd (run_resolver steps ?P (resolve ?P v ?s1))"
      using that by (simp add: snd_Promise_new)
    then have "stable (resolve ?P v ?s1) s'" by (simp add: stable_run_resolver)
    from stable_settled [OF this, of ?P] resolve_pending [OF fresh, of v] fresh(1) show ?thesis by simp
  qed
  have b: "pstatus (promises s' ! ?P) = REJECTED \<and> pvalue (promises s' ! ?P) = v"
    if "s' = snd (Promise_new (Resolver (CallReject v # steps)) s)" for s'
  proof -
    have "s' = snd (run_resolver steps ?P (reject ?P v ?s1))"
      using that by (simp add: snd_Promise_new)
    then have "stable (reject ?P v ?s1) s'" by (simp add: stable_run_resolver)
    from stable_settled [OF this, of ?P] reject_pending [OF fresh, of v] fresh(1) show ?thesis by simp
  qed
  have c: "Promise_new (Resolver (ThrowV e # steps)) s = (Throw e, ?s1)"
    by (simp add: Promise_new_def new_pending_def)
  have d: "Promise_new (Resolver pre) s = (Return (PromiseRef ?P), snd (Promise_new (Resolver pre) s)) \<and>
           Promise_new (Resolver (pre @ ThrowV e # steps)) s =
             (Throw e, snd (Promise_new (Resolver pre) s))"
    if nt: "\<forall>e'. ThrowV e' \<notin> set pre"
  proof -
    obtain r t where rt: "run_resolver pre ?P ?s1 = (r, t)" by force
    with run_resolver_no_throw [OF nt, of ?P ?s1] have r: "r = Return Undefined" by simp
    have "run_resolver (pre @ ThrowV e # steps) ?P ?s1 = (Throw e, t)"
      using run_resolver_throw [OF nt, of e steps ?P ?s1] rt by simp
    with rt r show ?thesis
      by (simp add: Promise_new_def new_pending_def)
  qed
  from a b c d fresh(2) show ?thesis by blast
qed

theorem constructor_runs_resolver_witness:
  "(\<forall>e'. ThrowV e' \<notin> set [CallResolve (Num 1)]) \<and>
   Promise_new (Resolver [CallResolve (Num 1)]) (init []) =
     (Return (PromiseRef 0),
      \<lparr>promises = [\<lparr>pstatus = FULLFILLED, pvalue = Num 1, doneCallbacks = [], failCallbacks = []\<rparr>],
       objs = [], cells = [], alls = [], tasks = [([], Num 1)], calls = []\<rparr>) \<and>
   Promise_new (Resolver [CallResolve (Num 1), ThrowV (Num 2), CallReject (Num 3)]) (init []) =
     (Throw (Num 2),
      \<lparr>promises = [\<lparr>pstatus = FULLFILLED, pvalue = Num 1, doneCallbacks = [], failCallbacks = []\<rparr>],
       objs = [], cells = [], alls = [], tasks = [([], Num 1)], calls = []\<rparr>) \<and>
   Promise_new (Resolver [ThrowV (Num 2)]) (init []) =
     (Throw (Num 2),
      \<lparr>promises = [\<lparr>pstatus = PENDING, pvalue = Undefined, doneCallbacks = [], failCallbacks = []\<rparr>],
       objs = [], cells = [], alls = [], tasks = [], calls = []\<rparr>)"
proof -
  have h: "\<forall>e'. ThrowV e' \<notin> set [CallResolve (Num 1)]" by simp
  have s: "snd (Promise_new (Resolver [CallResolve (Num 1)]) (init [])) =
      \<lparr>promises = [\<lparr>pstatus = FULLFILLED, pvalue = Num 1, doneCallbacks = [], failCallbacks = []\<rparr>],
       objs = [], cells = [], alls = [], tasks = [([], Num 1)], calls = []\<rparr>"
    by (simp add: Promise_new_def eval_defs)
  have n: "snd (new_pending (init [])) =
      \<lparr>promises = [\<lparr>pstatus = PENDING, pvalue = Undefined, doneCallbacks = [], failCallbacks = []\<rparr>],
       objs = [], cells = [], alls = [], tasks = [], calls = []\<rparr>"
    by (simp add: eval_defs)
  have l: "length (promises (init [])) = 0" by (simp add: init_def)
  from constructor_runs_resolver
    [of "Num 1" "[]" "init []" "Num 2" "[CallResolve (Num 1)]"]
    constructor_runs_resolver
    [of "Num 1" "[CallReject (Num 3)]" "init []" "Num 2" "[CallResolve (Num 1)]"]
    h s n l
  show ?thesis by simp
qed

section \<open>C6: a handler that throws\<close>

lemma then_new_pending:
  "pstatus (promises (snd (Promise_then this a b s)) ! fst (Promise_then this a b s)) = PENDING"
  by (simp add: Promise_then_def new_pending_def run_def Let_def nth_append nth_upd)

text \<open>
  C6. Let \<open>h\<close> be a handler that throws \<open>e\<close> on \<open>v\<close>, and \<open>p\<close> a pending promise, as the promise
  that \<^verbatim>\<open>then\<close> creates is (last conjunct). Calling the callback \<^verbatim>\<open>makeCallback(p, h, action)\<close>
  with \<open>v\<close> returns normally, and the state it leaves is exactly the state after
  \<^verbatim>\<open>reject(p, e)\<close>: the code after the \<^verbatim>\<open>catch\<close> runs with \<^verbatim>\<open>x\<close> undefined and its
  \<^verbatim>\<open>resolve(promise, x)\<close> changes nothing. \<open>p\<close> is rejected with \<open>e\<close>, and stays so under every
  later call of a function value and every scheduled function.
\<close>

theorem throwing_handler_rejects:
  assumes "h v = Throw e" and "p < length (promises s)" and "pstatus (promises s ! p) = PENDING"
  shows "call_fn n (makeCallback p (UserFn h) action) v s =
           Some (Return Undefined, reject p e (s\<lparr>calls := calls s @ [(h, v)]\<rparr>)) \<and>
         pstatus (promises (reject p e (s\<lparr>calls := calls s @ [(h, v)]\<rparr>)) ! p) = REJECTED \<and>
         pvalue (promises (reject p e (s\<lparr>calls := calls s @ [(h, v)]\<rparr>)) ! p) = e \<and>
         (\<forall>m f w r s'. call_fn m f w (reject p e (s\<lparr>calls := calls s @ [(h, v)]\<rparr>)) = Some (r, s') \<or>
                       run_task m (reject p e (s\<lparr>calls := calls s @ [(h, v)]\<rparr>)) = Some (r, s') \<longrightarrow>
            pstatus (promises s' ! p) = REJECTED \<and> pvalue (promises s' ! p) = e) \<and>
         pstatus (promises (snd (Promise_then this (UserFn h) b s)) !
                    fst (Promise_then this (UserFn h) b s)) = PENDING"
proof -
  let ?s1 = "s\<lparr>calls := calls s @ [(h, v)]\<rparr>"
  let ?s2 = "reject p e ?s1"
  have p1: "p < length (promises ?s1)" "pstatus (promises ?s1 ! p) = PENDING"
    using assms by simp_all
  note rj = reject_pending [OF p1, of e]
  have lt: "p < length (promises ?s2)" using rj p1 by simp
  have noop: "resolve p Undefined ?s2 = ?s2"
    using rj by (simp add: resolve_def)
  have "resolveThenable n p Undefined ?s2 = Some ?s2"
    using noop by (simp add: resolveThenable.simps)
  then have 1: "call_fn n (makeCallback p (UserFn h) action) v s = Some (Return Undefined, ?s2)"
    using assms(1) by (simp add: makeCallback_def try_callback_def)
  have 2: "pstatus (promises s' ! p) = REJECTED \<and> pvalue (promises s' ! p) = e"
    if "call_fn m f w ?s2 = Some (r, s') \<or> run_task m ?s2 = Some (r, s')" for m f w r s'
  proof -
    have "stable ?s2 s'" using that stable_interp(1) stable_run_task by blast
    from stable_settled [OF this lt] rj show ?thesis by simp
  qed
  from 1 2 rj then_new_pending show ?thesis by blast
qed

theorem throwing_handler_rejects_witness:
  "(\<lambda>v. Throw (Str ''boom'')) (Num 1) = Throw (Str ''boom'') \<and>
   (1::nat) < length (promises (snd (Promise_then 0 (UserFn (\<lambda>v. Throw (Str ''boom''))) (NonFn Null)
      (snd (Promise_resolve (Num 1) (init [])))))) \<and>
   pstatus (promises (snd (Promise_then 0 (UserFn (\<lambda>v. Throw (Str ''boom''))) (NonFn Null)
      (snd (Promise_resolve (Num 1) (init []))))) ! 1) = PENDING \<and>
   (\<exists>s'. call_fn 0 (makeCallback 1 (UserFn (\<lambda>v. Throw (Str ''boom''))) ''resolve'') (Num 1)
            (snd (Promise_then 0 (UserFn (\<lambda>v. Throw (Str ''boom''))) (NonFn Null)
               (snd (Promise_resolve (Num 1) (init []))))) = Some (Return Undefined, s') \<and>
         pstatus (promises s' ! 1) = REJECTED \<and> pvalue (promises s' ! 1) = Str ''boom'')"
proof -
  let ?h = "\<lambda>v::val. Throw (Str ''boom'')"
  let ?s = "snd (Promise_then 0 (UserFn ?h) (NonFn Null) (snd (Promise_resolve (Num 1) (init []))))"
  have h1: "?h (Num 1) = Throw (Str ''boom'')" by simp
  have h2: "1 < length (promises ?s)" by (simp add: eval_defs)
  have h3: "pstatus (promises ?s ! 1) = PENDING" by (simp add: eval_defs)
  have "?h (Num 1) = Throw (Str ''boom'') \<Longrightarrow> 1 < length (promises ?s) \<Longrightarrow>
        pstatus (promises ?s ! 1) = PENDING \<Longrightarrow>
        call_fn 0 (makeCallback 1 (UserFn ?h) ''resolve'') (Num 1) ?s =
          Some (Return Undefined, reject 1 (Str ''boom'') (?s\<lparr>calls := calls ?s @ [(?h, Num 1)]\<rparr>)) \<and>
        pstatus (promises (reject 1 (Str ''boom'') (?s\<lparr>calls := calls ?s @ [(?h, Num 1)]\<rparr>)) ! 1)
          = REJECTED \<and>
        pvalue (promises (reject 1 (Str ''boom'') (?s\<lparr>calls := calls ?s @ [(?h, Num 1)]\<rparr>)) ! 1)
          = Str ''boom''"
    using throwing_handler_rejects
      [where h = ?h and v = "Num 1" and e = "Str ''boom''" and p = 1 and s = ?s and n = 0
         and action = "''resolve''"]
    by blast
  from this [OF h1 h2 h3] h2 h3 show ?thesis by blast
qed

section \<open>C8: the latch of the two capabilities\<close>

lemma stable_cell_set:
  "stable s s' \<Longrightarrow> c < length (cells s) \<Longrightarrow> cells s ! c \<Longrightarrow> c < length (cells s') \<and> cells s' ! c"
  by (auto simp: stable_def)

lemma capability_sets_latch:
  assumes "c < length (cells s)"
    and "f = ResolvePromise p x c \<or> f = RejectPromise p c"
    and "call_fn n f v s = Some (r, s1)"
  shows "c < length (cells s1) \<and> cells s1 ! c"
proof (cases "cells s ! c")
  case True
  with assms show ?thesis by auto
next
  case False
  let ?s' = "s\<lparr>cells := (cells s)[c := True]\<rparr>"
  have set: "c < length (cells ?s')" "cells ?s' ! c" using assms(1) by simp_all
  from assms(2) show ?thesis
  proof
    assume f: "f = ResolvePromise p x c"
    show ?thesis
    proof (cases "v = x")
      case True
      with f False assms(3) have "s1 = ?s'" by (simp add: Let_def)
      with set show ?thesis by simp
    next
      case ne: False
      with f False assms(3) have "resolveThenable n p v ?s' = Some s1"
        by (simp add: Let_def split: option.splits)
      then have "stable ?s' s1" by (rule stable_interp(2))
      from stable_cell_set [OF this set] show ?thesis .
    qed
  next
    assume f: "f = RejectPromise p c"
    with False assms(3) have "s1 = reject p v ?s'" by simp
    then have "stable ?s' s1" by (simp add: stable_reject)
    from stable_cell_set [OF this set] show ?thesis .
  qed
qed

lemma capability_ignored:
  "cells s ! c \<Longrightarrow> f = ResolvePromise p x c \<or> f = RejectPromise p c \<Longrightarrow>
   call_fn n f v s = Some (Return Undefined, s)"
  by auto

lemma latch_after_first_call:
  assumes "c < length (cells s)"
    and "f1 = ResolvePromise p x c \<or> f1 = RejectPromise p c"
    and "f2 = ResolvePromise p x c \<or> f2 = RejectPromise p c"
    and "call_fn n f1 v s = Some (r, s1)"
  shows "cells s1 ! c \<and>
         call_fn m f2 w s1 = Some (Return Undefined, s1) \<and>
         (\<forall>k g u r' s2. call_fn k g u s1 = Some (r', s2) \<or> run_task k s1 = Some (r', s2) \<longrightarrow>
            call_fn m f2 w s2 = Some (Return Undefined, s2)) \<and>
         (\<forall>q. q < length (promises s) \<and> pstatus (promises s ! q) \<noteq> PENDING \<longrightarrow>
            pstatus (promises s1 ! q) = pstatus (promises s ! q) \<and>
            pvalue (promises s1 ! q) = pvalue (promises s ! q))"
proof -
  note l = capability_sets_latch [OF assms(1,2,4)]
  have 1: "call_fn m f2 w s1 = Some (Return Undefined, s1)"
    using l assms(3) capability_ignored by blast
  have 2: "call_fn m f2 w s2 = Some (Return Undefined, s2)"
    if "call_fn k g u s1 = Some (r', s2) \<or> run_task k s1 = Some (r', s2)" for k g u r' s2
  proof -
    have "stable s1 s2" using that stable_interp(1) stable_run_task by blast
    with l have "cells s2 ! c" using stable_cell_set by blast
    with assms(3) show ?thesis using capability_ignored by blast
  qed
  have "stable s s1" using assms(4) by (rule stable_interp(1))
  then have 3: "pstatus (promises s1 ! q) = pstatus (promises s ! q) \<and>
                pvalue (promises s1 ! q) = pvalue (promises s ! q)"
    if "q < length (promises s) \<and> pstatus (promises s ! q) \<noteq> PENDING" for q
    using that stable_settled by blast
  from l 1 2 3 show ?thesis by blast
qed

lemma latched_steps_ignored:
  "cells s ! c \<Longrightarrow>
   \<exists>r. run_steps m rest (ResolvePromise p x c) (RejectPromise p c) s = Some (r, s)"
proof (induction rest)
  case Nil
  then show ?case by simp
next
  case (Cons a rest)
  then show ?case by (cases a) auto
qed

lemma resolveThenable_foreign:
  assumes "get_then s obj = ThenFn steps"
  shows "resolveThenable (Suc n) p (ObjRef obj) s =
      (case run_steps n steps (ResolvePromise p (ObjRef obj) (length (cells s)))
              (RejectPromise p (length (cells s))) (s\<lparr>cells := cells s @ [False]\<rparr>) of
         None \<Rightarrow> None
       | Some (Return u, s2) \<Rightarrow> Some s2
       | Some (Throw e, s2) \<Rightarrow> Some (if \<not> cells s2 ! length (cells s) then reject p e s2 else s2))"
  using assms by (simp add: resolveThenable.simps Let_def)

lemma after_latched:
  assumes "cells t ! c"
  shows "(case run_steps m rest (ResolvePromise p x c) (RejectPromise p c) t of
            None \<Rightarrow> None
          | Some (Return u, s2) \<Rightarrow> Some s2
          | Some (Throw e, s2) \<Rightarrow> Some (if \<not> cells s2 ! c then reject p e s2 else s2)) = Some t"
proof -
  from latched_steps_ignored [OF assms, where m = m and rest = rest and p = p and x = x] obtain r where
    "run_steps m rest (ResolvePromise p x c) (RejectPromise p c) t = Some (r, t)" by blast
  with assms show ?thesis by (cases r) simp_all
qed

lemma first_call_decides:
  assumes "get_then s obj = ThenFn steps"
  shows "resolveThenable (Suc n) p (ObjRef obj) s =
      (case steps of
         [] \<Rightarrow> Some (s\<lparr>cells := cells s @ [False]\<rparr>)
       | ThrowV e # rest \<Rightarrow> Some (reject p e (s\<lparr>cells := cells s @ [False]\<rparr>))
       | CallReject e # rest \<Rightarrow> Some (reject p e (s\<lparr>cells := cells s @ [True]\<rparr>))
       | CallResolve y # rest \<Rightarrow>
           if y = ObjRef obj then Some (s\<lparr>cells := cells s @ [True]\<rparr>)
           else resolveThenable n p y (s\<lparr>cells := cells s @ [True]\<rparr>))"
proof -
  let ?c = "length (cells s)"
  let ?x = "ObjRef obj"
  let ?s0 = "s\<lparr>cells := cells s @ [False]\<rparr>"
  let ?s1 = "s\<lparr>cells := cells s @ [True]\<rparr>"
  note rt = resolveThenable_foreign [OF assms, of n p]
  have upd: "?s0\<lparr>cells := (cells ?s0)[?c := True]\<rparr> = ?s1" by simp
  have c0: "\<not> cells ?s0 ! ?c" by simp
  show ?thesis
  proof (cases steps)
    case Nil
    with rt show ?thesis by simp
  next
    case (Cons a rest)
    show ?thesis
    proof (cases a)
      case (ThrowV e)
      with Cons rt show ?thesis by simp
    next
      case (CallReject e)
      let ?t = "reject p e ?s1"
      have cell: "cells ?t ! ?c" by (simp add: reject_def run_def Let_def)
      have "call_fn n (RejectPromise p ?c) e ?s0 = Some (Return Undefined, ?t)"
        using c0 upd by simp
      then have "run_steps n steps (ResolvePromise p ?x ?c) (RejectPromise p ?c) ?s0 =
                 run_steps n rest (ResolvePromise p ?x ?c) (RejectPromise p ?c) ?t"
        using Cons CallReject by simp
      with rt after_latched [OF cell, where m = n and rest = rest and p = p and x = ?x] Cons CallReject show ?thesis by simp
    next
      case (CallResolve y)
      show ?thesis
      proof (cases "y = ?x")
        case True
        have "call_fn n (ResolvePromise p ?x ?c) y ?s0 = Some (Throw (TypeError
          ''TypeError: The return value could not be same with the previous thenable object''), ?s1)"
          using c0 upd True by (simp add: Let_def)
        then have "run_steps n steps (ResolvePromise p ?x ?c) (RejectPromise p ?c) ?s0 =
            Some (Throw (TypeError
          ''TypeError: The return value could not be same with the previous thenable object''), ?s1)"
          using Cons CallResolve by simp
        with rt Cons CallResolve True show ?thesis by simp
      next
        case False
        show ?thesis
        proof (cases "resolveThenable n p y ?s1")
          case None
          then have "call_fn n (ResolvePromise p ?x ?c) y ?s0 = None"
            using c0 upd False by (simp add: Let_def)
          then have "run_steps n steps (ResolvePromise p ?x ?c) (RejectPromise p ?c) ?s0 = None"
            using Cons CallResolve by simp
          with rt Cons CallResolve False None show ?thesis by simp
        next
          case (Some t)
          then have st: "stable ?s1 t" by (rule stable_interp(2))
          have "?c < length (cells ?s1)" "cells ?s1 ! ?c" by simp_all
          from stable_cell_set [OF st this] have cell: "cells t ! ?c" by simp
          have "call_fn n (ResolvePromise p ?x ?c) y ?s0 = Some (Return Undefined, t)"
            using c0 upd False Some by (simp add: Let_def)
          then have "run_steps n steps (ResolvePromise p ?x ?c) (RejectPromise p ?c) ?s0 =
                 run_steps n rest (ResolvePromise p ?x ?c) (RejectPromise p ?c) t"
            using Cons CallResolve by simp
          with rt after_latched [OF cell, where m = n and rest = rest and p = p and x = ?x] Cons CallResolve False Some
          show ?thesis by simp
        qed
      qed
    qed
  qed
qed


lemma resolveThenable_promise:
  "resolveThenable n p (PromiseRef q) s =
     Some (snd (Promise_then q (ResolvePromise p (PromiseRef q) (length (cells s)))
                  (RejectPromise p (length (cells s))) (s\<lparr>cells := cells s @ [False]\<rparr>)))"
  by (simp add: resolveThenable.simps Let_def)

text \<open>
  C8. When \<^verbatim>\<open>resolveThenable\<close> finds a foreign object \<open>x\<close> whose \<^verbatim>\<open>then\<close> is a function, it
  calls that function with the pair \<open>ResolvePromise p x c\<close>, \<open>RejectPromise p c\<close> over one new
  cell \<open>c\<close>, which no earlier closure knows and which is unset (first conjunct; third conjunct
  for a promise of the library in that place). Of the steps of the \<^verbatim>\<open>then\<close>, whatever they are,
  only the first has an effect (second conjunct): a throw rejects \<open>p\<close>; a call of the second
  capability rejects \<open>p\<close>; a call of the first capability with \<open>y\<close> goes on with \<open>y\<close> (or, with \<open>x\<close>
  itself, throws, which leaves \<open>p\<close> as it is); every later call of either capability and every
  later throw is ignored. Last conjunct, for a \<^verbatim>\<open>then\<close> that keeps the capabilities and calls
  them later: once a call of either capability of a pair has returned or thrown, the cell is
  set, and every call of either, right away or after any other call of a function value or
  scheduled function, returns \<^verbatim>\<open>undefined\<close> and leaves the state as it is; the first call
  changes no promise that was already settled.
\<close>

theorem capabilities_share_latch:
  assumes "get_then s obj = ThenFn steps"
  shows
    "resolveThenable (Suc n) p (ObjRef obj) s =
       (case run_steps n steps (ResolvePromise p (ObjRef obj) (length (cells s)))
               (RejectPromise p (length (cells s))) (s\<lparr>cells := cells s @ [False]\<rparr>) of
          None \<Rightarrow> None
        | Some (Return u, s2) \<Rightarrow> Some s2
        | Some (Throw e, s2) \<Rightarrow>
            Some (if \<not> cells s2 ! length (cells s) then reject p e s2 else s2)) \<and>
     resolveThenable (Suc n) p (ObjRef obj) s =
       (case steps of
          [] \<Rightarrow> Some (s\<lparr>cells := cells s @ [False]\<rparr>)
        | ThrowV e # rest \<Rightarrow> Some (reject p e (s\<lparr>cells := cells s @ [False]\<rparr>))
        | CallReject e # rest \<Rightarrow> Some (reject p e (s\<lparr>cells := cells s @ [True]\<rparr>))
        | CallResolve y # rest \<Rightarrow>
            if y = ObjRef obj then Some (s\<lparr>cells := cells s @ [True]\<rparr>)
            else resolveThenable n p y (s\<lparr>cells := cells s @ [True]\<rparr>)) \<and>
     resolveThenable n p (PromiseRef q) s =
       Some (snd (Promise_then q (ResolvePromise p (PromiseRef q) (length (cells s)))
                    (RejectPromise p (length (cells s))) (s\<lparr>cells := cells s @ [False]\<rparr>))) \<and>
     (\<forall>c t f1 f2 p' x' k m v w r t1.
        c < length (cells t) \<and>
        (f1 = ResolvePromise p' x' c \<or> f1 = RejectPromise p' c) \<and>
        (f2 = ResolvePromise p' x' c \<or> f2 = RejectPromise p' c) \<and>
        call_fn k f1 v t = Some (r, t1) \<longrightarrow>
          cells t1 ! c \<and>
          call_fn m f2 w t1 = Some (Return Undefined, t1) \<and>
          (\<forall>k' g u r' t2. call_fn k' g u t1 = Some (r', t2) \<or> run_task k' t1 = Some (r', t2) \<longrightarrow>
             call_fn m f2 w t2 = Some (Return Undefined, t2)) \<and>
          (\<forall>q'. q' < length (promises t) \<and> pstatus (promises t ! q') \<noteq> PENDING \<longrightarrow>
             pstatus (promises t1 ! q') = pstatus (promises t ! q') \<and>
             pvalue (promises t1 ! q') = pvalue (promises t ! q')))"
proof -
  note a = resolveThenable_foreign [OF assms, of n p]
  note b = first_call_decides [OF assms, of n p]
  note c = resolveThenable_promise [of n p q s]
  have d: "cells t1 ! c \<and>
          call_fn m f2 w t1 = Some (Return Undefined, t1) \<and>
          (\<forall>k' g u r' t2. call_fn k' g u t1 = Some (r', t2) \<or> run_task k' t1 = Some (r', t2) \<longrightarrow>
             call_fn m f2 w t2 = Some (Return Undefined, t2)) \<and>
          (\<forall>q'. q' < length (promises t) \<and> pstatus (promises t ! q') \<noteq> PENDING \<longrightarrow>
             pstatus (promises t1 ! q') = pstatus (promises t ! q') \<and>
             pvalue (promises t1 ! q') = pvalue (promises t ! q'))"
    if "c < length (cells t) \<and>
        (f1 = ResolvePromise p' x' c \<or> f1 = RejectPromise p' c) \<and>
        (f2 = ResolvePromise p' x' c \<or> f2 = RejectPromise p' c) \<and>
        call_fn k f1 v t = Some (r, t1)"
    for c t f1 f2 p' x' k and m :: nat and v w r t1
  proof -
    from that have h: "c < length (cells t)"
      "f1 = ResolvePromise p' x' c \<or> f1 = RejectPromise p' c"
      "f2 = ResolvePromise p' x' c \<or> f2 = RejectPromise p' c"
      "call_fn k f1 v t = Some (r, t1)"
      by simp_all
    show ?thesis by (rule latch_after_first_call [OF h])
  qed
  have D: "\<forall>c t f1 f2 p' x' k m v w r t1.
        c < length (cells t) \<and>
        (f1 = ResolvePromise p' x' c \<or> f1 = RejectPromise p' c) \<and>
        (f2 = ResolvePromise p' x' c \<or> f2 = RejectPromise p' c) \<and>
        call_fn k f1 v t = Some (r, t1) \<longrightarrow>
          cells t1 ! c \<and>
          call_fn m f2 w t1 = Some (Return Undefined, t1) \<and>
          (\<forall>k' g u r' t2. call_fn k' g u t1 = Some (r', t2) \<or> run_task k' t1 = Some (r', t2) \<longrightarrow>
             call_fn m f2 w t2 = Some (Return Undefined, t2)) \<and>
          (\<forall>q'. q' < length (promises t) \<and> pstatus (promises t ! q') \<noteq> PENDING \<longrightarrow>
             pstatus (promises t1 ! q') = pstatus (promises t ! q') \<and>
             pvalue (promises t1 ! q') = pvalue (promises t ! q'))"
    by (intro allI impI) (rule d)
  from a b c D show ?thesis by (intro conjI)
qed


theorem capabilities_share_latch_witness:
  "get_then
     (snd (new_pending (snd (new_pending (snd (Promise_race (Arr [])
        (init [ThenFn [CallResolve (PromiseRef 1), CallReject (Num 7), ThrowV (Num 8)]]))))))) 0 =
     ThenFn [CallResolve (PromiseRef 1), CallReject (Num 7), ThrowV (Num 8)] \<and>
   cells
     (snd (new_pending (snd (new_pending (snd (Promise_race (Arr [])
        (init [ThenFn [CallResolve (PromiseRef 1), CallReject (Num 7), ThrowV (Num 8)]]))))))) =
     [False] \<and>
   resolveThenable (Suc 0) 2 (ObjRef 0)
     (snd (new_pending (snd (new_pending (snd (Promise_race (Arr [])
        (init [ThenFn [CallResolve (PromiseRef 1), CallReject (Num 7), ThrowV (Num 8)]]))))))) =
     Some
       \<lparr>promises =
          [\<lparr>pstatus = PENDING, pvalue = Undefined, doneCallbacks = [], failCallbacks = []\<rparr>,
           \<lparr>pstatus = PENDING, pvalue = Undefined,
             doneCallbacks = [makeCallback 3 (ResolvePromise 2 (PromiseRef 1) 2) ''resolve''],
             failCallbacks = [makeCallback 3 (RejectPromise 2 2) ''reject'']\<rparr>,
           \<lparr>pstatus = PENDING, pvalue = Undefined, doneCallbacks = [], failCallbacks = []\<rparr>,
           \<lparr>pstatus = PENDING, pvalue = Undefined, doneCallbacks = [], failCallbacks = []\<rparr>],
        objs = [ThenFn [CallResolve (PromiseRef 1), CallReject (Num 7), ThrowV (Num 8)]],
        cells = [False, True, False], alls = [], tasks = [], calls = []\<rparr> \<and>
   get_then (snd (new_pending (init [ThenFn [CallReject (Num 7), CallResolve (Num 1), ThrowV (Num 8)]]))) 0 =
     ThenFn [CallReject (Num 7), CallResolve (Num 1), ThrowV (Num 8)] \<and>
   resolveThenable (Suc 0) 0 (ObjRef 0)
     (snd (new_pending (init [ThenFn [CallReject (Num 7), CallResolve (Num 1), ThrowV (Num 8)]]))) =
     Some
       \<lparr>promises =
          [\<lparr>pstatus = REJECTED, pvalue = Num 7, doneCallbacks = [], failCallbacks = []\<rparr>],
        objs = [ThenFn [CallReject (Num 7), CallResolve (Num 1), ThrowV (Num 8)]],
        cells = [True], alls = [], tasks = [([], Num 7)], calls = []\<rparr> \<and>
   call_fn 0 (ResolvePromise 0 (ObjRef 0) 0) (Num 1)
       \<lparr>promises =
          [\<lparr>pstatus = REJECTED, pvalue = Num 7, doneCallbacks = [], failCallbacks = []\<rparr>],
        objs = [ThenFn [CallReject (Num 7), CallResolve (Num 1), ThrowV (Num 8)]],
        cells = [True], alls = [], tasks = [([], Num 7)], calls = []\<rparr> =
     Some (Return Undefined,
       \<lparr>promises =
          [\<lparr>pstatus = REJECTED, pvalue = Num 7, doneCallbacks = [], failCallbacks = []\<rparr>],
        objs = [ThenFn [CallReject (Num 7), CallResolve (Num 1), ThrowV (Num 8)]],
        cells = [True], alls = [], tasks = [([], Num 7)], calls = []\<rparr>)"
proof -
  let ?o1 = "[ThenFn [CallResolve (PromiseRef 1), CallReject (Num 7), ThrowV (Num 8)]]"
  let ?s = "snd (new_pending (snd (new_pending (snd (Promise_race (Arr []) (init ?o1))))))"
  let ?o2 = "[ThenFn [CallReject (Num 7), CallResolve (Num 1), ThrowV (Num 8)]]"
  let ?ta = "snd (new_pending (init ?o2))"
  let ?tb = "?ta\<lparr>cells := cells ?ta @ [False]\<rparr>"
  let ?tc = "\<lparr>promises =
          [\<lparr>pstatus = REJECTED, pvalue = Num 7, doneCallbacks = [], failCallbacks = []\<rparr>],
        objs = ?o2, cells = [True], alls = [], tasks = [([], Num 7)], calls = []\<rparr>"
  have h1: "get_then ?s 0 = ThenFn [CallResolve (PromiseRef 1), CallReject (Num 7), ThrowV (Num 8)]"
    by (simp add: get_then_def Promise_race_def eval_defs)
  have c1: "cells ?s = [False]"
    by (simp add: Promise_race_def eval_defs)
  have h2: "get_then ?ta 0 = ThenFn [CallReject (Num 7), CallResolve (Num 1), ThrowV (Num 8)]"
    by (simp add: get_then_def eval_defs)
  note w1 = capabilities_share_latch [OF h1, of 0 2]
  note w2 = capabilities_share_latch [OF h2, of 0 0]
  have r1: "resolveThenable (Suc 0) 2 (ObjRef 0) ?s =
              resolveThenable 0 2 (PromiseRef 1) (?s\<lparr>cells := cells ?s @ [True]\<rparr>)"
    using w1 [THEN conjunct2, THEN conjunct1] by simp
  have r2: "resolveThenable (Suc 0) 0 (ObjRef 0) ?ta = Some (reject 0 (Num 7) (?ta\<lparr>cells := cells ?ta @ [True]\<rparr>))"
    using w2 [THEN conjunct2, THEN conjunct1] by simp
  have e2: "reject 0 (Num 7) (?ta\<lparr>cells := cells ?ta @ [True]\<rparr>) = ?tc"
    by (simp add: eval_defs)
  have f0: "call_fn 0 (RejectPromise 0 0) (Num 7) ?tb = Some (Return Undefined, ?tc)"
    by (simp add: eval_defs)
  have l0: "0 < length (cells ?tb)" by simp
  from w2 [THEN conjunct2, THEN conjunct2, THEN conjunct2] have "0 < length (cells ?tb) \<and>
        (RejectPromise 0 0 = ResolvePromise 0 (ObjRef 0) 0 \<or> RejectPromise 0 0 = RejectPromise 0 0) \<and>
        (ResolvePromise 0 (ObjRef 0) 0 = ResolvePromise 0 (ObjRef 0) 0 \<or>
         ResolvePromise 0 (ObjRef 0) 0 = RejectPromise 0 0) \<and>
        call_fn 0 (RejectPromise 0 0) (Num 7) ?tb = Some (Return Undefined, ?tc) \<longrightarrow>
        call_fn 0 (ResolvePromise 0 (ObjRef 0) 0) (Num 1) ?tc = Some (Return Undefined, ?tc)"
    by blast
  with l0 f0 have i: "call_fn 0 (ResolvePromise 0 (ObjRef 0) 0) (Num 1) ?tc = Some (Return Undefined, ?tc)"
    by blast
  have v1: "resolveThenable 0 2 (PromiseRef 1) (?s\<lparr>cells := cells ?s @ [True]\<rparr>) =
     Some
       \<lparr>promises =
          [\<lparr>pstatus = PENDING, pvalue = Undefined, doneCallbacks = [], failCallbacks = []\<rparr>,
           \<lparr>pstatus = PENDING, pvalue = Undefined,
             doneCallbacks = [makeCallback 3 (ResolvePromise 2 (PromiseRef 1) 2) ''resolve''],
             failCallbacks = [makeCallback 3 (RejectPromise 2 2) ''reject'']\<rparr>,
           \<lparr>pstatus = PENDING, pvalue = Undefined, doneCallbacks = [], failCallbacks = []\<rparr>,
           \<lparr>pstatus = PENDING, pvalue = Undefined, doneCallbacks = [], failCallbacks = []\<rparr>],
        objs = ?o1, cells = [False, True, False], alls = [], tasks = [], calls = []\<rparr>"
    by (simp add: resolveThenable.simps Promise_race_def eval_defs)
  from h1 c1 h2 r1 v1 r2 e2 i show ?thesis by simp
qed

section \<open>C7: handlers run later, in the order of registration\<close>

lemma calls_run [simp]: "calls (run p s) = calls s"
  by (simp add: run_def Let_def)

lemma calls_resolve [simp]: "calls (resolve p v s) = calls s"
  by (simp add: resolve_def)

lemma calls_reject [simp]: "calls (reject p v s) = calls s"
  by (simp add: reject_def)

lemma calls_then [simp]: "calls (snd (Promise_then this a b s)) = calls s"
  by (simp add: Promise_then_def new_pending_def Let_def)

lemma calls_try_callback: "try_callback p r s = (x, s') \<Longrightarrow> calls s' = calls s"
  by (auto simp: try_callback_def split: outcome.splits)

lemma calls_interp:
  "call_fn n f v s = Some (r, s') \<Longrightarrow> calls s' = calls s @ handler_calls f v"
  "resolveThenable n p x s = Some s' \<Longrightarrow> calls s' = calls s"
  "run_steps n steps f1 f2 s = Some (r, s') \<Longrightarrow>
     \<forall>w. handler_calls f1 w = [] \<Longrightarrow> \<forall>w. handler_calls f2 w = [] \<Longrightarrow> calls s' = calls s"
proof (induction n f v s and n p x s and n steps f1 f2 s arbitrary: r s' and s' and r s'
       rule: call_fn_resolveThenable_run_steps.induct)
  case (7 n a index action v s)
  then show ?case by (auto simp: Let_def split: if_splits)
next
  case (8 n p x c y s)
  then show ?case by (auto simp: Let_def split: if_splits option.splits)
next
  case (10 n p callback action v s)
  show ?case
  proof (cases "is_function callback")
    case False
    then have "handler_calls callback v = []" by (cases callback) simp_all
    with False "10.prems" show ?thesis by (auto split: if_splits)
  next
    case True
    from True "10.prems" obtain r1 s1 where c1: "call_fn n callback v s = Some (r1, s1)"
      by (auto split: option.splits)
    obtain x s2 where t: "try_callback p r1 s1 = (x, s2)" by force
    have "calls s1 = calls s @ handler_calls callback v" using "10.IH"(1) [OF True c1] .
    with t have cs2: "calls s2 = calls s @ handler_calls callback v"
      using calls_try_callback by metis
    show ?thesis
    proof (cases "x = PromiseRef p")
      case xp: True
      with True "10.prems" c1 t cs2 show ?thesis by auto
    next
      case xp: False
      show ?thesis
      proof (cases "\<exists>q. x = PromiseRef q")
        case True
        with \<open>is_function callback\<close> "10.prems" c1 t xp cs2 show ?thesis by auto
      next
        case False
        with \<open>is_function callback\<close> "10.prems" c1 t xp
        obtain s3 where r3: "resolveThenable n p x s2 = Some s3" and e: "s' = s3"
          by (cases x) (auto split: option.splits)
        have "calls s3 = calls s2"
          using "10.IH"(2-) [OF \<open>is_function callback\<close> c1 refl t [symmetric] xp _ r3] False
          by (cases x) auto
        then show ?thesis using cs2 e by simp
      qed
    qed
  qed
next
  case (11 n p x s)
  note res = "11.prems" [unfolded resolveThenable.simps [of n p x s]]
  show ?case
  proof (cases x)
    case (PromiseRef q)
    with res show ?thesis by (auto simp: Let_def)
  next
    case (ObjRef obj)
    show ?thesis
    proof (cases "get_then s obj")
      case (ThenThrows e)
      with ObjRef res show ?thesis by auto
    next
      case (ThenValue t)
      with ObjRef res show ?thesis by auto
    next
      case (ThenFn steps)
      let ?c = "length (cells s)"
      let ?s1 = "s\<lparr>cells := cells s @ [False]\<rparr>"
      from ObjRef ThenFn res have n0: "n \<noteq> 0" by (auto simp: Let_def split: if_splits)
      from ObjRef ThenFn res n0 obtain r2 s2 where
        rs: "run_steps (n - 1) steps (ResolvePromise p x ?c) (RejectPromise p ?c) ?s1 = Some (r2, s2)"
        by (auto simp: Let_def split: option.splits)
      have st: "calls s2 = calls ?s1"
        using "11.IH" [OF _ ObjRef ThenFn refl refl n0 rs] ObjRef by simp
      have "calls s' = calls s2"
        using ObjRef ThenFn res n0 rs
        by (auto simp: Let_def split: outcome.splits if_splits)
      with st show ?thesis by simp
    qed
  qed (use res in auto)
next
  case (13 n y steps f g s)
  from "13.prems"(1) obtain r1 s1 where c: "call_fn n f y s = Some (r1, s1)"
    by (auto split: option.splits)
  have a: "calls s1 = calls s" using "13.IH"(1) [OF c] "13.prems"(2) by simp
  show ?case
  proof (cases r1)
    case (Return z)
    with c "13.prems"(1) have "run_steps n steps f g s1 = Some (r, s')" by simp
    from "13.IH"(2) [OF c refl Return this "13.prems"(2,3)] a show ?thesis by simp
  next
    case (Throw z)
    with c "13.prems"(1) a show ?thesis by simp
  qed
next
  case (14 n e steps f g s)
  from "14.prems"(1) obtain r1 s1 where c: "call_fn n g e s = Some (r1, s1)"
    by (auto split: option.splits)
  have a: "calls s1 = calls s" using "14.IH"(1) [OF c] "14.prems"(3) by simp
  show ?case
  proof (cases r1)
    case (Return z)
    with c "14.prems"(1) have "run_steps n steps f g s1 = Some (r, s')" by simp
    from "14.IH"(2) [OF c refl Return this "14.prems"(2,3)] a show ?thesis by simp
  next
    case (Throw z)
    with c "14.prems"(1) a show ?thesis by simp
  qed
next
  case (1 n f v s)
  then show ?case by simp
next
  case (2 n f v s)
  then show ?case by auto
next
  case (3 n p v s)
  then show ?case by auto
next
  case (4 n p v s)
  then show ?case by auto
next
  case (5 n p c v s)
  then show ?case by (auto split: if_splits)
next
  case (6 n p c v s)
  then show ?case by (auto split: if_splits)
next
  case (9 n p c e s)
  then show ?case by (auto split: if_splits)
next
  case (12 n f g s)
  then show ?case by simp
next
  case (15 n e steps f g s)
  then show ?case by simp
qed



lemma promiseCallback_returns_undefined:
  "call_fn n (makeCallback q f action) v s = Some (r, s') \<Longrightarrow> r = Return Undefined"
  by (cases "try_callback q (fst (the (call_fn n f v s))) (snd (the (call_fn n f v s)))")
     (auto simp: makeCallback_def split: if_splits option.splits val.splits)

lemma promiseCallback_returns:
  assumes "\<forall>obj. h v \<noteq> Return (ObjRef obj)"
  shows "call_fn n (makeCallback q (UserFn h) action) v s \<noteq> None"
proof -
  let ?s1 = "s\<lparr>calls := calls s @ [(h, v)]\<rparr>"
  obtain x s2 where t: "try_callback q (h v) ?s1 = (x, s2)" by force
  have nobj: "\<forall>obj. x \<noteq> ObjRef obj"
    using t assms by (auto simp: try_callback_def split: outcome.splits)
  show ?thesis
  proof (cases "x = PromiseRef q")
    case True
    with t show ?thesis by (simp add: makeCallback_def)
  next
    case xp: False
    from nobj have "resolveThenable n q x s2 \<noteq> None"
      by (cases x) (simp_all add: resolveThenable.simps Let_def)
    with t xp show ?thesis
      by (cases x) (auto simp: makeCallback_def)
  qed
qed

lemma run_callbacks_order:
  "run_callbacks n (map (\<lambda>(q, f). makeCallback q f action) regs) v s = Some (r, s') \<Longrightarrow>
   r = Return Undefined \<and> calls s' = calls s @ concat (map (\<lambda>(q, f). handler_calls f v) regs)"
proof (induction regs arbitrary: s)
  case Nil
  then show ?case by simp
next
  case (Cons a regs)
  obtain q f where a: "a = (q, f)" by force
  from Cons.prems a obtain r1 s1 where
    c: "call_fn n (makeCallback q f action) v s = Some (r1, s1)"
    by (auto split: option.splits)
  from promiseCallback_returns_undefined [OF c] calls_interp(1) [OF c]
  have 1: "r1 = Return Undefined" "calls s1 = calls s @ handler_calls f v"
    by (simp_all add: makeCallback_def)
  with Cons.prems a c have
    "run_callbacks n (map (\<lambda>(q, f). makeCallback q f action) regs) v s1 = Some (r, s')"
    by simp
  from Cons.IH [OF this] 1 a show ?case by simp
qed

lemma run_callbacks_returns:
  "\<forall>(q, h) \<in> set regs. \<forall>obj. h v \<noteq> Return (ObjRef obj) \<Longrightarrow>
   run_callbacks n (map (\<lambda>(q, h). makeCallback q (UserFn h) action) regs) v s \<noteq> None"
proof (induction regs arbitrary: s)
  case Nil
  then show ?case by simp
next
  case (Cons a regs)
  obtain q h where a: "a = (q, h)" by force
  with Cons.prems have "\<forall>obj. h v \<noteq> Return (ObjRef obj)" by simp
  with promiseCallback_returns [where h = h and v = v and n = n and q = q and action = action
      and s = s]
  obtain r1 s1 where
    c: "call_fn n (makeCallback q (UserFn h) action) v s = Some (r1, s1)" by auto
  from promiseCallback_returns_undefined [OF c] have 1: "r1 = Return Undefined" by simp
  have "run_callbacks n (map (\<lambda>(q, h). makeCallback q (UserFn h) action) regs) v s1 \<noteq> None"
    using Cons.IH Cons.prems by simp
  with a c 1 show ?case by simp
qed

lemma tasks_then:
  "this < length (promises s) \<Longrightarrow>
   tasks (snd (Promise_then this a b s)) =
     (if pstatus (promises s ! this) = PENDING then tasks s
      else tasks s @
        [(if pstatus (promises s ! this) = FULLFILLED
          then doneCallbacks (promises s ! this) @ [makeCallback (length (promises s)) a ''resolve'']
          else failCallbacks (promises s ! this) @ [makeCallback (length (promises s)) b ''reject''],
          pvalue (promises s ! this))])"
  by (simp add: Promise_then_def new_pending_def run_def Let_def nth_append)

lemma tasks_settle:
  "p < length (promises s) \<Longrightarrow> pstatus (promises s ! p) = PENDING \<Longrightarrow>
   tasks (resolve p v s) = tasks s @ [(doneCallbacks (promises s ! p), v)] \<and>
   tasks (reject p v s) = tasks s @ [(failCallbacks (promises s ! p), v)]"
  by (simp add: resolve_def reject_def run_def Let_def)

text \<open>
  C7. \<^verbatim>\<open>then\<close> returns a new pending promise, and neither \<^verbatim>\<open>then\<close> nor \<^verbatim>\<open>resolve\<close> nor
  \<^verbatim>\<open>reject\<close> invokes a handler: the trace of invocations is the same after the call. What
  they do is hand one function to the scheduler, behind everything scheduled before:
  \<^verbatim>\<open>then\<close> on a settled promise schedules the callbacks of the matching array, the new one
  last; \<^verbatim>\<open>resolve\<close> and \<^verbatim>\<open>reject\<close> on a pending promise schedule the array as the calls of
  \<^verbatim>\<open>then\<close> built it. The scheduled function invokes the handlers in the order of the array,
  each once, with the settled value; with handlers that do not return a foreign object it
  returns for every bound on the nesting.
\<close>



lemma run_callbacks_handlers:
  assumes "\<forall>(q, h) \<in> set hs. \<forall>obj. h v \<noteq> Return (ObjRef obj)"
  shows "\<exists>s'. run_callbacks n (map (\<lambda>(q, h). makeCallback q (UserFn h) action) hs) v s =
              Some (Return Undefined, s') \<and>
            calls s' = calls s @ map (\<lambda>(q, h). (h, v)) hs"
proof -
  let ?regs = "map (\<lambda>(q, h). (q, UserFn h)) hs"
  have m: "map (\<lambda>(q, f). makeCallback q f action) ?regs =
           map (\<lambda>(q, h). makeCallback q (UserFn h) action) hs"
    by (induction hs) auto
  have c: "concat (map (\<lambda>(q, f). handler_calls f v) ?regs) = map (\<lambda>(q, h). (h, v)) hs"
    by (induction hs) auto
  from run_callbacks_returns [OF assms, of n action s] obtain r s' where
    rc: "run_callbacks n (map (\<lambda>(q, h). makeCallback q (UserFn h) action) hs) v s = Some (r, s')"
    by auto
  have "run_callbacks n (map (\<lambda>(q, f). makeCallback q f action) ?regs) v s = Some (r, s')"
    unfolding m by (rule rc)
  from run_callbacks_order [OF this] c rc show ?thesis by simp
qed

text \<open>
  C7. \<^verbatim>\<open>then\<close> returns a new pending promise, and neither \<^verbatim>\<open>then\<close> nor \<^verbatim>\<open>resolve\<close> nor
  \<^verbatim>\<open>reject\<close> invokes a handler: the trace of invocations is the same after the call. What
  they do is hand one function to the scheduler, behind everything scheduled before:
  \<^verbatim>\<open>then\<close> on a settled promise schedules the callbacks of the matching array, the new one
  last; \<^verbatim>\<open>resolve\<close> and \<^verbatim>\<open>reject\<close> on a pending promise schedule the array as the calls of
  \<^verbatim>\<open>then\<close> built it. The scheduled function goes through the array in order: what it adds to
  the trace is, entry by entry, the invocation of the handler registered there (nothing for
  an entry registered without a handler), with the settled value. When the entries are
  handlers that do not return a foreign object, it returns for every bound on the nesting,
  and each handler was invoked once, in the order of registration.
\<close>

theorem handlers_run_later_in_order:
  "fst (Promise_then this a b s) = length (promises s) \<and>
   pstatus (promises (snd (Promise_then this a b s)) ! fst (Promise_then this a b s)) = PENDING \<and>
   calls (snd (Promise_then this a b s)) = calls s \<and>
   calls (resolve p v s) = calls s \<and>
   calls (reject p v s) = calls s \<and>
   (this < length (promises s) \<longrightarrow>
      tasks (snd (Promise_then this a b s)) =
        (if pstatus (promises s ! this) = PENDING then tasks s
         else tasks s @
           [(if pstatus (promises s ! this) = FULLFILLED
             then doneCallbacks (promises s ! this) @ [makeCallback (length (promises s)) a ''resolve'']
             else failCallbacks (promises s ! this) @ [makeCallback (length (promises s)) b ''reject''],
             pvalue (promises s ! this))])) \<and>
   (p < length (promises s) \<and> pstatus (promises s ! p) = PENDING \<longrightarrow>
      tasks (resolve p v s) = tasks s @ [(doneCallbacks (promises s ! p), v)] \<and>
      tasks (reject p v s) = tasks s @ [(failCallbacks (promises s ! p), v)]) \<and>
   (run_callbacks n (map (\<lambda>(q, f). makeCallback q f action) regs) v s = Some (r, s') \<longrightarrow>
      r = Return Undefined \<and>
      calls s' = calls s @ concat (map (\<lambda>(q, f). handler_calls f v) regs)) \<and>
   ((\<forall>(q, h) \<in> set hs. \<forall>obj. h v \<noteq> Return (ObjRef obj)) \<longrightarrow>
      (\<exists>s'. run_callbacks n (map (\<lambda>(q, h). makeCallback q (UserFn h) action) hs) v s =
               Some (Return Undefined, s') \<and>
             calls s' = calls s @ map (\<lambda>(q, h). (h, v)) hs))"
proof -
  have 1: "fst (Promise_then this a b s) = length (promises s)"
    by (simp add: Promise_then_def new_pending_def Let_def)
  show ?thesis
    using 1 then_new_pending [of this a b s] calls_then [of this a b s]
      calls_resolve [of p v s] calls_reject [of p v s]
      tasks_then [of this s a b] tasks_settle [of p s v]
      run_callbacks_order [of n action regs v s r s']
      run_callbacks_handlers [of hs v n action s]
    by blast
qed

theorem handlers_run_later_in_order_witness:
  "(0::nat) < length (promises (snd (new_pending (init [])))) \<and>
   pstatus (promises (snd (new_pending (init []))) ! 0) = PENDING \<and>
   resolve 0 (Num 7)
     (snd (Promise_then 0 (UserFn Throw) (NonFn Null)
        (snd (Promise_then 0 (UserFn Return) (NonFn Null) (snd (new_pending (init []))))))) =
     \<lparr>promises =
        [\<lparr>pstatus = FULLFILLED, pvalue = Num 7, doneCallbacks = [], failCallbacks = []\<rparr>,
         \<lparr>pstatus = PENDING, pvalue = Undefined, doneCallbacks = [], failCallbacks = []\<rparr>,
         \<lparr>pstatus = PENDING, pvalue = Undefined, doneCallbacks = [], failCallbacks = []\<rparr>],
      objs = [], cells = [], alls = [],
      tasks = [([makeCallback 1 (UserFn Return) ''resolve'',
                 makeCallback 2 (UserFn Throw) ''resolve''], Num 7)],
      calls = []\<rparr> \<and>
   (\<forall>obj. Return (Num 7) \<noteq> Return (ObjRef obj)) \<and>
   (\<forall>obj. Throw (Num 7) \<noteq> Return (ObjRef obj)) \<and>
   (\<exists>s'. run_task 0
       \<lparr>promises =
          [\<lparr>pstatus = FULLFILLED, pvalue = Num 7, doneCallbacks = [], failCallbacks = []\<rparr>,
           \<lparr>pstatus = PENDING, pvalue = Undefined, doneCallbacks = [], failCallbacks = []\<rparr>,
           \<lparr>pstatus = PENDING, pvalue = Undefined, doneCallbacks = [], failCallbacks = []\<rparr>],
        objs = [], cells = [], alls = [],
        tasks = [([makeCallback 1 (UserFn Return) ''resolve'',
                   makeCallback 2 (UserFn Throw) ''resolve''], Num 7)],
        calls = []\<rparr> = Some (Return Undefined, s') \<and>
      calls s' = [(Return, Num 7), (Throw, Num 7)])"
proof -
  let ?s0 = "snd (new_pending (init []))"
  let ?s2 = "snd (Promise_then 0 (UserFn Throw) (NonFn Null)
        (snd (Promise_then 0 (UserFn Return) (NonFn Null) ?s0)))"
  let ?cbs = "[makeCallback 1 (UserFn Return) ''resolve'', makeCallback 2 (UserFn Throw) ''resolve'']"
  let ?s3 = "\<lparr>promises =
        [\<lparr>pstatus = FULLFILLED, pvalue = Num 7, doneCallbacks = [], failCallbacks = []\<rparr>,
         \<lparr>pstatus = PENDING, pvalue = Undefined, doneCallbacks = [], failCallbacks = []\<rparr>,
         \<lparr>pstatus = PENDING, pvalue = Undefined, doneCallbacks = [], failCallbacks = []\<rparr>],
      objs = [], cells = [], alls = [], tasks = [(?cbs, Num 7)], calls = []\<rparr>"
  let ?hs = "[(1::nat, Return), (2, Throw)]"
  have h1: "0 < length (promises ?s0)" "pstatus (promises ?s0 ! 0) = PENDING"
    by (simp_all add: eval_defs)
  have e3: "resolve 0 (Num 7) ?s2 = ?s3"
    by (simp add: eval_defs)
  have h3: "\<forall>(q, h) \<in> set ?hs. \<forall>obj. h (Num 7) \<noteq> Return (ObjRef obj)"
    by simp
  have m: "map (\<lambda>(q, h). makeCallback q (UserFn h) ''resolve'') ?hs = ?cbs" by simp
  from handlers_run_later_in_order
    [where this = 0 and s = "?s3\<lparr>tasks := []\<rparr>" and p = 0 and v = "Num 7" and n = 0
       and action = "''resolve''" and hs = ?hs] h3
  obtain s' where
    "run_callbacks 0 (map (\<lambda>(q, h). makeCallback q (UserFn h) ''resolve'') ?hs)
      (Num 7) (?s3\<lparr>tasks := []\<rparr>) = Some (Return Undefined, s')"
    "calls s' = calls (?s3\<lparr>tasks := []\<rparr>) @ map (\<lambda>(q, h). (h, Num 7)) ?hs"
    by blast
  with m have "run_task 0 ?s3 = Some (Return Undefined, s') \<and>
      calls s' = [(Return, Num 7), (Throw, Num 7)]"
    by (simp add: run_task_def)
  then have "\<exists>s'. run_task 0 ?s3 = Some (Return Undefined, s') \<and>
      calls s' = [(Return, Num 7), (Throw, Num 7)]" by blast
  with h1 e3 show ?thesis by simp
qed

end
